theory Spec2Isabelle
  imports Complex_Main "HOL-Library.Sublist" "HOL-Library.AList" "HOL-Library.Multiset"
    "HOL-Library.List_Lexorder" "HOL-Library.Product_Lexorder"
begin

section \<open>The cabinet command of src/cabinet.js\<close>

text \<open>
  The command shows a user's card collection: the cards fetched from storage are
  validated, filtered, sorted (\<open>processCards\<close>), cut into pages of \<open>PAGE_SIZE\<close>
  cards (\<open>calculatePagination\<close>) and rendered; a per-message handler then serves the
  navigation buttons until a timer removes it (\<open>setupInteractionHandler\<close>).
\<close>

subsection \<open>Pagination\<close>

definition PAGE_SIZE :: nat where
  "PAGE_SIZE = 12"

text \<open>
  \<open>Math.ceil(n / d)\<close> for an array length \<open>n\<close>. Array lengths are below \<open>2^32\<close>, where
  the double-precision quotient rounds to the same ceiling as the exact one, so the
  quotient is taken in the reals.
\<close>

definition ceilDiv :: "nat \<Rightarrow> nat \<Rightarrow> int" where
  "ceilDiv n d = \<lceil>real n / real d\<rceil>"

record pagination =
  currentPage :: int
  totalPages :: int
  pageSize :: nat

text \<open>
  \<open>page || 1\<close>: the number \<open>0\<close> is falsy, every other integer is truthy.
\<close>

definition orOne :: "int \<Rightarrow> int" where
  "orOne page = (if page = 0 then 1 else page)"

text \<open>
  \<open>calculatePagination(cards, page)\<close>; only \<open>cards.length\<close> is read, so the model takes
  the length.
\<close>

definition calculatePagination :: "nat \<Rightarrow> int \<Rightarrow> pagination" where
  "calculatePagination len page =
     (let totalPages = max 1 (ceilDiv len PAGE_SIZE);
          currentPage = max 1 (min (orOne page) totalPages)
      in \<lparr>currentPage = currentPage, totalPages = totalPages, pageSize = PAGE_SIZE\<rparr>)"

text \<open>The spec's \<open>clamp(x, lo, hi)\<close>.\<close>

definition clamp :: "int \<Rightarrow> int \<Rightarrow> int \<Rightarrow> int" where
  "clamp x lo hi = (if x < lo then lo else if hi < x then hi else x)"

subsection \<open>Strings, missing properties and exceptions\<close>

text \<open>
  A JavaScript string is a list of code units, one \<open>char\<close> each: the strings of the
  model are those whose code units are below 256. \<open>toLowerCase\<close> folds the capital
  letters among them, \<open>A-Z\<close> and \<open>0xC0-0xDE\<close> without the multiplication sign \<open>0xD7\<close>,
  to the letter 32 places up, and leaves every other code unit alone.
\<close>

definition capitalLetters :: string where
  "capitalLetters =
     ''ABCDEFGHIJKLMNOPQRSTUVWXYZ''
     @ [CHR 0xC0, CHR 0xC1, CHR 0xC2, CHR 0xC3, CHR 0xC4, CHR 0xC5, CHR 0xC6, CHR 0xC7,
       CHR 0xC8, CHR 0xC9, CHR 0xCA, CHR 0xCB, CHR 0xCC, CHR 0xCD, CHR 0xCE, CHR 0xCF,
       CHR 0xD0, CHR 0xD1, CHR 0xD2, CHR 0xD3, CHR 0xD4, CHR 0xD5, CHR 0xD6, CHR 0xD8,
       CHR 0xD9, CHR 0xDA, CHR 0xDB, CHR 0xDC, CHR 0xDD, CHR 0xDE]"

definition smallLetters :: string where
  "smallLetters =
     ''abcdefghijklmnopqrstuvwxyz''
     @ [CHR 0xE0, CHR 0xE1, CHR 0xE2, CHR 0xE3, CHR 0xE4, CHR 0xE5, CHR 0xE6, CHR 0xE7,
       CHR 0xE8, CHR 0xE9, CHR 0xEA, CHR 0xEB, CHR 0xEC, CHR 0xED, CHR 0xEE, CHR 0xEF,
       CHR 0xF0, CHR 0xF1, CHR 0xF2, CHR 0xF3, CHR 0xF4, CHR 0xF5, CHR 0xF6, CHR 0xF8,
       CHR 0xF9, CHR 0xFA, CHR 0xFB, CHR 0xFC, CHR 0xFD, CHR 0xFE]"

definition lowerChar :: "char \<Rightarrow> char" where
  "lowerChar c = (case map_of (zip capitalLetters smallLetters) c of None \<Rightarrow> c | Some l \<Rightarrow> l)"

text \<open>
  \<open>toUpperCase\<close> is the reverse on the small letters and writes the sharp s \<open>0xDF\<close> as
  \<open>SS\<close>. The capitals of \<open>0xB5\<close> and \<open>0xFF\<close> are code units above 255; for these two
  the model keeps the code unit, which is one unit long as the capital is.
\<close>

definition upperChar :: "char \<Rightarrow> string" where
  "upperChar c =
     (if c = CHR 0xDF then ''SS''
      else case map_of (zip smallLetters capitalLetters) c of None \<Rightarrow> [c] | Some u \<Rightarrow> [u])"

definition toLowerCase :: "string \<Rightarrow> string" where
  "toLowerCase s = map lowerChar s"

definition toUpperCase :: "string \<Rightarrow> string" where
  "toUpperCase s = concat (map upperChar s)"

text \<open>\<open>s.includes(t)\<close>: \<open>t\<close> occurs in \<open>s\<close> as a contiguous run.\<close>

definition stringIncludes :: "string \<Rightarrow> string \<Rightarrow> bool" where
  "stringIncludes s t = sublist t s"

text \<open>
  Reading a property of \<open>undefined\<close> throws a \<open>TypeError\<close>; it is the only exception the
  query functions can raise.
\<close>

datatype error = TypeError

text \<open>
  A card as \<open>fetchUserCards\<close> selects it. Every property is a string or is missing
  (\<open>None\<close>, JavaScript's \<open>undefined\<close>).
\<close>

record card =
  name :: "string option"
  group :: "string option"
  rarity :: "string option"
  condition :: "string option"
  imageURL :: "string option"
  cardCode :: "string option"

text \<open>Truthiness of a property: a missing property and the empty string are falsy.\<close>

definition truthy :: "string option \<Rightarrow> bool" where
  "truthy v = (case v of None \<Rightarrow> False | Some s \<Rightarrow> s \<noteq> [])"

text \<open>A property inside a template literal: \<open>undefined\<close> prints as the word.\<close>

definition templateString :: "string option \<Rightarrow> string" where
  "templateString v = (case v of None \<Rightarrow> ''undefined'' | Some s \<Rightarrow> s)"

subsection \<open>Validation and term matching\<close>

definition isValidCard :: "card \<Rightarrow> bool" where
  "isValidCard c =
     (truthy (name c) \<and> truthy (group c) \<and> truthy (rarity c) \<and> truthy (condition c))"

text \<open>\<open>field.toLowerCase().includes(term)\<close>, which throws when the field is missing.\<close>

definition lowerIncludes :: "string option \<Rightarrow> string \<Rightarrow> error + bool" where
  "lowerIncludes field term =
     (case field of None \<Rightarrow> Inl TypeError | Some s \<Rightarrow> Inr (stringIncludes (toLowerCase s) term))"

text \<open>\<open>a || b\<close> on booleans: \<open>b\<close> is evaluated only when \<open>a\<close> is false.\<close>

definition orElse :: "error + bool \<Rightarrow> error + bool \<Rightarrow> error + bool" where
  "orElse a b = (case a of Inl e \<Rightarrow> Inl e | Inr True \<Rightarrow> Inr True | Inr False \<Rightarrow> b)"

definition cardMatchesTerm :: "card \<Rightarrow> string \<Rightarrow> error + bool" where
  "cardMatchesTerm c term =
     orElse (lowerIncludes (name c) term)
    (orElse (lowerIncludes (group c) term)
    (orElse (lowerIncludes (rarity c) term)
    (orElse (lowerIncludes (condition c) term)
            (lowerIncludes (cardCode c) term))))"

text \<open>\<open>Array.prototype.every\<close>, \<open>some\<close> and \<open>filter\<close> with a callback that may throw.\<close>

fun everyE :: "('a \<Rightarrow> error + bool) \<Rightarrow> 'a list \<Rightarrow> error + bool" where
  "everyE p [] = Inr True"
| "everyE p (x # xs) =
     (case p x of Inl e \<Rightarrow> Inl e | Inr True \<Rightarrow> everyE p xs | Inr False \<Rightarrow> Inr False)"

fun someE :: "('a \<Rightarrow> error + bool) \<Rightarrow> 'a list \<Rightarrow> error + bool" where
  "someE p [] = Inr False"
| "someE p (x # xs) =
     (case p x of Inl e \<Rightarrow> Inl e | Inr True \<Rightarrow> Inr True | Inr False \<Rightarrow> someE p xs)"

fun filterE :: "('a \<Rightarrow> error + bool) \<Rightarrow> 'a list \<Rightarrow> error + 'a list" where
  "filterE p [] = Inr []"
| "filterE p (x # xs) =
     (case p x of
        Inl e \<Rightarrow> Inl e
      | Inr keep \<Rightarrow>
          (case filterE p xs of
             Inl e \<Rightarrow> Inl e
           | Inr ys \<Rightarrow> Inr (if keep then x # ys else ys)))"

definition matchesSearch :: "card \<Rightarrow> string list \<Rightarrow> error + bool" where
  "matchesSearch c terms =
     someE (\<lambda>term.
        orElse (lowerIncludes (name c) term)
       (orElse (lowerIncludes (group c) term)
       (orElse (lowerIncludes (rarity c) term)
       (orElse (lowerIncludes (condition c) term)
               (lowerIncludes (cardCode c) term))))) terms"

definition notE :: "error + bool \<Rightarrow> error + bool" where
  "notE a = (case a of Inl e \<Rightarrow> Inl e | Inr b \<Rightarrow> Inr (\<not> b))"

subsection \<open>Duplicates\<close>

text \<open>
  \<open>counts\<close> is a \<open>Map\<close> from the printed image URL to a number, kept in insertion order;
  the result is the \<open>Set\<close> of the keys counted more than once, as the list of its
  members.
\<close>

definition countCard :: "card \<Rightarrow> (string \<times> nat) list \<Rightarrow> (string \<times> nat) list" where
  "countCard c counts =
     (let key = templateString (imageURL c)
      in AList.update key ((case map_of counts key of None \<Rightarrow> 0 | Some n \<Rightarrow> n) + 1) counts)"

definition findDuplicates :: "card list \<Rightarrow> string list" where
  "findDuplicates cards =
     (let counts = fold countCard cards []
      in map fst (filter (\<lambda>(key, count). count > 1) counts))"

text \<open>
  \<open>duplicates.has(card.imageURL)\<close>: the set holds strings only, so a missing image URL is
  never a member.
\<close>

definition setHas :: "string list \<Rightarrow> string option \<Rightarrow> bool" where
  "setHas members v = (case v of None \<Rightarrow> False | Some s \<Rightarrow> s \<in> set members)"

subsection \<open>Sorting\<close>

text \<open>
  The rank tables of \<open>sortCards\<close>. A key outside a table reads as \<open>undefined\<close> (or, for
  \<open>constructor\<close> and \<open>__proto__\<close>, as an inherited object); subtracting such a value
  gives \<open>NaN\<close>, which \<open>None\<close> stands for.
\<close>

definition RARITY_ORDER :: "string \<Rightarrow> int option" where
  "RARITY_ORDER k =
     (if k = ''mythic'' then Some 4
      else if k = ''glyph'' then Some 3
      else if k = ''unique'' then Some 2
      else if k = ''standard'' then Some 1
      else None)"

definition CONDITION_ORDER :: "string \<Rightarrow> int option" where
  "CONDITION_ORDER k =
     (if k = ''pristine'' then Some 1
      else if k = ''mint'' then Some 2
      else if k = ''good'' then Some 3
      else if k = ''worn'' then Some 4
      else if k = ''damaged'' then Some 5
      else None)"

definition jsSub :: "int option \<Rightarrow> int option \<Rightarrow> int option" where
  "jsSub x y = (case x of None \<Rightarrow> None | Some m \<Rightarrow> (case y of None \<Rightarrow> None | Some n \<Rightarrow> Some (m - n)))"

text \<open>\<open>ORDER[x.toLowerCase()] - ORDER[y.toLowerCase()]\<close>, evaluated left to right.\<close>

definition rankDiff ::
  "(string \<Rightarrow> int option) \<Rightarrow> string option \<Rightarrow> string option \<Rightarrow> error + int option" where
  "rankDiff order x y =
     (case x of
        None \<Rightarrow> Inl TypeError
      | Some xs \<Rightarrow>
          (case y of
             None \<Rightarrow> Inl TypeError
           | Some ys \<Rightarrow> Inr (jsSub (order (toLowerCase xs)) (order (toLowerCase ys)))))"

text \<open>
  \<open>x.localeCompare(y)\<close>. The collation is the platform's and is a parameter of the
  model; the argument is converted to a string first, so a missing \<open>y\<close> compares as the
  word \<open>undefined\<close>.
\<close>

definition localeCompareE ::
  "(string \<Rightarrow> string \<Rightarrow> int) \<Rightarrow> string option \<Rightarrow> string option \<Rightarrow> error + int option" where
  "localeCompareE localeCompare x y =
     (case x of None \<Rightarrow> Inl TypeError | Some xs \<Rightarrow> Inr (Some (localeCompare xs (templateString y))))"

text \<open>\<open>a || b\<close> on numbers: \<open>0\<close> and \<open>NaN\<close> are falsy.\<close>

definition orNum :: "error + int option \<Rightarrow> error + int option \<Rightarrow> error + int option" where
  "orNum a b =
     (case a of
        Inl e \<Rightarrow> Inl e
      | Inr None \<Rightarrow> b
      | Inr (Some n) \<Rightarrow> if n \<noteq> 0 then Inr (Some n) else b)"

text \<open>The comparator passed to \<open>sort\<close> in \<open>sortCards\<close>.\<close>

definition compareCards :: "(string \<Rightarrow> string \<Rightarrow> int) \<Rightarrow> card \<Rightarrow> card \<Rightarrow> error + int option" where
  "compareCards localeCompare a b =
     orNum (rankDiff RARITY_ORDER (rarity b) (rarity a))
    (orNum (rankDiff CONDITION_ORDER (condition a) (condition b))
    (orNum (localeCompareE localeCompare (group a) (group b))
           (localeCompareE localeCompare (name a) (name b))))"

text \<open>
  \<open>Array.prototype.sort\<close> belongs to the engine, and the language leaves its algorithm
  open. What the language fixes is written down here as a contract, and the engine's
  sort is a parameter of \<open>sortCards\<close>.

  A comparator is consistent on the elements of an array when every call returns a
  number, not \<open>NaN\<close> and not an exception, and the signs of the results divide the
  elements into classes that are totally ordered.
\<close>

type_synonym 'a comparator = "'a \<Rightarrow> 'a \<Rightarrow> error + int option"

type_synonym 'a arraySort = "'a comparator \<Rightarrow> 'a list \<Rightarrow> error + 'a list"

definition lessCF :: "'a comparator \<Rightarrow> 'a \<Rightarrow> 'a \<Rightarrow> bool" where
  "lessCF cmp a b = (case cmp a b of Inr (Some n) \<Rightarrow> n < 0 | _ \<Rightarrow> False)"

definition equalCF :: "'a comparator \<Rightarrow> 'a \<Rightarrow> 'a \<Rightarrow> bool" where
  "equalCF cmp a b = (case cmp a b of Inr (Some n) \<Rightarrow> n = 0 | _ \<Rightarrow> False)"

definition greaterCF :: "'a comparator \<Rightarrow> 'a \<Rightarrow> 'a \<Rightarrow> bool" where
  "greaterCF cmp a b = (case cmp a b of Inr (Some n) \<Rightarrow> 0 < n | _ \<Rightarrow> False)"

definition consistentComparator :: "'a comparator \<Rightarrow> 'a list \<Rightarrow> bool" where
  "consistentComparator cmp xs =
     ((\<forall>a\<in>set xs. \<forall>b\<in>set xs. \<exists>n. cmp a b = Inr (Some n))
      \<and> (\<forall>a\<in>set xs. equalCF cmp a a)
      \<and> (\<forall>a\<in>set xs. \<forall>b\<in>set xs. equalCF cmp a b \<longrightarrow> equalCF cmp b a)
      \<and> (\<forall>a\<in>set xs. \<forall>b\<in>set xs. \<forall>c\<in>set xs.
            equalCF cmp a b \<and> equalCF cmp b c \<longrightarrow> equalCF cmp a c)
      \<and> (\<forall>a\<in>set xs. \<forall>b\<in>set xs. \<forall>c\<in>set xs.
            lessCF cmp a b \<and> lessCF cmp b c \<longrightarrow> lessCF cmp a c)
      \<and> (\<forall>a\<in>set xs. \<forall>b\<in>set xs. \<forall>c\<in>set xs.
            greaterCF cmp a b \<and> greaterCF cmp b c \<longrightarrow> greaterCF cmp a c))"

text \<open>
  With a consistent comparator the sorted array is determined: the classes in ascending
  order, the elements of a class in their old order (the sort is stable). Insertion,
  each element put before the first one it is not after, computes that array.
\<close>

definition notAfter :: "int option \<Rightarrow> bool" where
  "notAfter v = (case v of None \<Rightarrow> True | Some n \<Rightarrow> n \<le> 0)"

fun insertSorted :: "'a comparator \<Rightarrow> 'a \<Rightarrow> 'a list \<Rightarrow> error + 'a list" where
  "insertSorted cmp x [] = Inr [x]"
| "insertSorted cmp x (y # ys) =
     (case cmp x y of
        Inl e \<Rightarrow> Inl e
      | Inr v \<Rightarrow>
          if notAfter v then Inr (x # y # ys)
          else (case insertSorted cmp x ys of Inl e \<Rightarrow> Inl e | Inr zs \<Rightarrow> Inr (y # zs)))"

fun insertionSort :: "'a arraySort" where
  "insertionSort cmp [] = Inr []"
| "insertionSort cmp (x # xs) =
     (case insertionSort cmp xs of Inl e \<Rightarrow> Inl e | Inr ys \<Rightarrow> insertSorted cmp x ys)"

text \<open>
  The contract of the engine's sort. When no comparison of two elements throws, the
  sort returns a rearrangement of the array. When the comparator is consistent, it is
  the stable sorted one. With a comparator that is not consistent the order of the
  result is the engine's own, and the contract says nothing about it; nor does it say
  which comparisons the engine makes when some of them throw.
\<close>

definition conformingSort :: "'a arraySort \<Rightarrow> bool" where
  "conformingSort arraySort =
     (\<forall>cmp xs.
        ((\<forall>a\<in>set xs. \<forall>b\<in>set xs. \<exists>v. cmp a b = Inr v) \<longrightarrow>
           (\<exists>ys. arraySort cmp xs = Inr ys \<and> mset ys = mset xs))
        \<and> (consistentComparator cmp xs \<longrightarrow> arraySort cmp xs = insertionSort cmp xs))"

definition sortCards ::
  "card arraySort \<Rightarrow> (string \<Rightarrow> string \<Rightarrow> int) \<Rightarrow> card list \<Rightarrow> error + card list" where
  "sortCards arraySort localeCompare cards = arraySort (compareCards localeCompare) cards"

subsection \<open>The query pipeline\<close>

record options =
  searchTerms :: "string list"
  excludeTerms :: "string list"
  userId :: string
  page :: int
  showDuplicates :: bool

text \<open>Lines 92-96 of \<open>processCards\<close>: the include filter.\<close>

definition includeFilter :: "string list \<Rightarrow> card list \<Rightarrow> error + card list" where
  "includeFilter expandedSearchTerms filtered =
     (if expandedSearchTerms \<noteq> []
      then filterE (\<lambda>c. everyE (\<lambda>term. cardMatchesTerm c term) expandedSearchTerms) filtered
      else Inr filtered)"

text \<open>Lines 98-100: the exclude filter.\<close>

definition excludeFilter :: "string list \<Rightarrow> card list \<Rightarrow> error + card list" where
  "excludeFilter expandedExcludeTerms filtered =
     (if expandedExcludeTerms \<noteq> []
      then filterE (\<lambda>c. notE (matchesSearch c expandedExcludeTerms)) filtered
      else Inr filtered)"

text \<open>Lines 102-105: the duplicates filter.\<close>

definition duplicatesFilter :: "bool \<Rightarrow> card list \<Rightarrow> card list" where
  "duplicatesFilter showDups filtered =
     (if showDups
      then (let duplicates = findDuplicates filtered
            in filter (\<lambda>c. setHas duplicates (imageURL c)) filtered)
      else filtered)"

text \<open>
  \<open>processCards(cards, options)\<close>. The alias table of \<open>config/searchAliases\<close> is not part
  of the source; its \<open>expandAll\<close> is a parameter, as are the sort of the engine and
  the collation of \<open>localeCompare\<close>.
\<close>

definition processCards ::
  "card arraySort \<Rightarrow> (string list \<Rightarrow> string list) \<Rightarrow> (string \<Rightarrow> string \<Rightarrow> int) \<Rightarrow> card list
     \<Rightarrow> options \<Rightarrow> error + card list" where
  "processCards arraySort expandAll localeCompare cards opts =
     (let filtered = filter isValidCard cards;
          expandedSearchTerms = expandAll (searchTerms opts);
          expandedExcludeTerms = expandAll (excludeTerms opts)
      in case includeFilter expandedSearchTerms filtered of
           Inl e \<Rightarrow> Inl e
         | Inr filtered1 \<Rightarrow>
             (case excludeFilter expandedExcludeTerms filtered1 of
                Inl e \<Rightarrow> Inl e
              | Inr filtered2 \<Rightarrow>
                  sortCards arraySort localeCompare
                    (duplicatesFilter (showDuplicates opts) filtered2)))"

subsection \<open>The collation of \<open>localeCompare\<close>\<close>

text \<open>
  \<open>sortCards\<close> calls \<open>localeCompare\<close> without a locale or options, which is the
  platform's default collation at its default strength. On strings of ASCII letters and
  digits that collation compares the text without regard to case first (digits before
  letters, letters alphabetically, a proper prefix first), and orders strings that
  differ in case only by their first such difference, lower case first. So
  \<open>'a'.localeCompare('A')\<close> is negative, and \<open>'A'.localeCompare('b')\<close> is negative.
\<close>

definition caseWeight :: "char \<Rightarrow> nat" where
  "caseWeight c = (if lowerChar c = c then 0 else 1)"

definition collationKey :: "string \<Rightarrow> nat list \<times> nat list" where
  "collationKey s = (map (\<lambda>c. of_char (lowerChar c)) s, map caseWeight s)"

definition localeCompare :: "string \<Rightarrow> string \<Rightarrow> int" where
  "localeCompare x y =
     (if collationKey x < collationKey y then - 1
      else if collationKey x = collationKey y then 0 else 1)"

text \<open>
  What the language asks of a collation: a consistent comparison, that is a total
  preorder read off the sign of the result.
\<close>

definition consistentCollation :: "(string \<Rightarrow> string \<Rightarrow> int) \<Rightarrow> bool" where
  "consistentCollation lc =
     ((\<forall>x. lc x x = 0)
      \<and> (\<forall>x y. (lc x y < 0) = (0 < lc y x))
      \<and> (\<forall>x y z. lc x y \<le> 0 \<and> lc y z \<le> 0 \<longrightarrow> lc x z \<le> 0)
      \<and> (\<forall>x y z. lc x y \<le> 0 \<and> lc y z < 0 \<longrightarrow> lc x z < 0)
      \<and> (\<forall>x y z. lc x y < 0 \<and> lc y z \<le> 0 \<longrightarrow> lc x z < 0))"

subsection \<open>The properties of the query pipeline, as the specification words them\<close>

text \<open>The fields a term is matched against, those that are present.\<close>

definition fiveFields :: "card \<Rightarrow> string list" where
  "fiveFields c = List.map_filter (\<lambda>v. v) [name c, group c, rarity c, condition c, cardCode c]"

text \<open>A card that passes validation and carries a code: all five fields are strings.\<close>

definition hasFields :: "card \<Rightarrow> bool" where
  "hasFields c = (isValidCard c \<and> cardCode c \<noteq> None)"

text \<open>The match of the source: the term occurs, as it is, in a lower-cased field.\<close>

definition termMatches :: "card \<Rightarrow> string \<Rightarrow> bool" where
  "termMatches c term = list_ex (\<lambda>field. stringIncludes (toLowerCase field) term) (fiveFields c)"

text \<open>The match of the specification: a substring without regard to case.\<close>

definition caseInsensitiveSubstring :: "string \<Rightarrow> string \<Rightarrow> bool" where
  "caseInsensitiveSubstring term field = sublist (toLowerCase term) (toLowerCase field)"

definition specIncludeKeeps :: "string list \<Rightarrow> card \<Rightarrow> bool" where
  "specIncludeKeeps terms c =
     list_all (\<lambda>term. list_ex (\<lambda>field. caseInsensitiveSubstring term field) (fiveFields c)) terms"

definition specExcludeDrops :: "string list \<Rightarrow> card \<Rightarrow> bool" where
  "specExcludeDrops terms c =
     list_ex (\<lambda>term. list_ex (\<lambda>field. caseInsensitiveSubstring term field) (fiveFields c)) terms"

text \<open>How often the image key of \<open>c\<close> occurs in a list of cards.\<close>

definition imageKeyCount :: "card list \<Rightarrow> card \<Rightarrow> nat" where
  "imageKeyCount cards c = length (filter (\<lambda>d. imageURL d = imageURL c) cards)"

text \<open>A validated card whose rarity and condition are in the rank tables, and its ranks.\<close>

definition knownRanks :: "card \<Rightarrow> bool" where
  "knownRanks c =
     (isValidCard c
      \<and> RARITY_ORDER (toLowerCase (templateString (rarity c))) \<noteq> None
      \<and> CONDITION_ORDER (toLowerCase (templateString (condition c))) \<noteq> None)"

definition rarityRank :: "card \<Rightarrow> int" where
  "rarityRank c = (case RARITY_ORDER (toLowerCase (templateString (rarity c))) of None \<Rightarrow> 0 | Some r \<Rightarrow> r)"

definition conditionRank :: "card \<Rightarrow> int" where
  "conditionRank c =
     (case CONDITION_ORDER (toLowerCase (templateString (condition c))) of None \<Rightarrow> 0 | Some r \<Rightarrow> r)"

text \<open>
  \<open>a\<close> may stand before \<open>b\<close>: rarity rank descending, then condition rank ascending,
  then group, then name, the last two in the order of the comparison \<open>cmp\<close>.
\<close>

definition sortOrder :: "(string \<Rightarrow> string \<Rightarrow> int) \<Rightarrow> card \<Rightarrow> card \<Rightarrow> bool" where
  "sortOrder cmp a b =
     (rarityRank b < rarityRank a
      \<or> (rarityRank a = rarityRank b
          \<and> (conditionRank a < conditionRank b
              \<or> (conditionRank a = conditionRank b
                  \<and> (cmp (templateString (group a)) (templateString (group b)) < 0
                      \<or> (cmp (templateString (group a)) (templateString (group b)) = 0
                          \<and> cmp (templateString (name a)) (templateString (name b)) \<le> 0))))))"

text \<open>The number the comparator returns for two such cards.\<close>

definition compareKnown :: "(string \<Rightarrow> string \<Rightarrow> int) \<Rightarrow> card \<Rightarrow> card \<Rightarrow> int" where
  "compareKnown cmp a b =
     (if rarityRank b - rarityRank a \<noteq> 0 then rarityRank b - rarityRank a
      else if conditionRank a - conditionRank b \<noteq> 0 then conditionRank a - conditionRank b
      else if cmp (templateString (group a)) (templateString (group b)) \<noteq> 0
      then cmp (templateString (group a)) (templateString (group b))
      else cmp (templateString (name a)) (templateString (name b)))"

text \<open>The specification's comparison of names: ascending, without regard to case.\<close>

definition caseInsensitiveCompare :: "string \<Rightarrow> string \<Rightarrow> int" where
  "caseInsensitiveCompare x y =
     (let kx = map (\<lambda>c. of_char (lowerChar c)) x :: nat list;
          ky = map (\<lambda>c. of_char (lowerChar c)) y
      in if kx < ky then - 1 else if kx = ky then 0 else 1)"

text \<open>A query keeps a card that is valid, matches every include term and no exclude term.\<close>

definition queryKeeps :: "string list \<Rightarrow> string list \<Rightarrow> card \<Rightarrow> bool" where
  "queryKeeps inc exc c =
     (isValidCard c \<and> list_all (termMatches c) inc \<and> \<not> list_ex (termMatches c) exc)"

subsection \<open>The page description\<close>

text \<open>The decimal digits of a number, as a template literal prints them.\<close>

fun natToString :: "nat \<Rightarrow> string" where
  "natToString n =
     (if n < 10 then [''0123456789'' ! n]
      else natToString (n div 10) @ [''0123456789'' ! (n mod 10)])"

declare natToString.simps [simp del]

text \<open>
  \<open>grouped\<close> is a plain object: a list of its own properties in the order of their
  creation. A name it does not own is looked up in \<open>Object.prototype\<close>; of the names
  defined there only \<open>constructor\<close> and \<open>__proto__\<close> are free of capital letters and so
  can come out of \<open>toLowerCase\<close>. Both read as a truthy value without a \<open>push\<close>
  method: no group is created, and the call of \<open>push\<close> throws.
\<close>

definition inheritedKey :: "string \<Rightarrow> bool" where
  "inheritedKey k = (k = ''constructor'' \<or> k = ''__proto__'')"

definition groupCard :: "card \<Rightarrow> (string \<times> card list) list \<Rightarrow> error + (string \<times> card list) list" where
  "groupCard c grouped =
     (case rarity c of
        None \<Rightarrow> Inl TypeError
      | Some r \<Rightarrow>
          (let rarityKey = toLowerCase r
           in case map_of grouped rarityKey of
                Some members \<Rightarrow> Inr (AList.update rarityKey (members @ [c]) grouped)
              | None \<Rightarrow>
                  if inheritedKey rarityKey then Inl TypeError
                  else Inr (grouped @ [(rarityKey, [c])])))"

fun groupCards :: "card list \<Rightarrow> (string \<times> card list) list \<Rightarrow> error + (string \<times> card list) list" where
  "groupCards [] grouped = Inr grouped"
| "groupCards (c # cs) grouped =
     (case groupCard c grouped of Inl e \<Rightarrow> Inl e | Inr grouped' \<Rightarrow> groupCards cs grouped')"

text \<open>
  \<open>Object.entries\<close> lists the properties whose names are array indices first, in
  ascending numeric order, and the other properties after them in the order of their
  creation. An array index is the decimal numeral, without leading zeros, of a number
  below \<open>2^32 - 1\<close>.
\<close>

definition digitValue :: "char \<Rightarrow> nat" where
  "digitValue c = (case map_of (zip ''0123456789'' [0, 1, 2, 3, 4, 5, 6, 7, 8, 9]) c of None \<Rightarrow> 0 | Some d \<Rightarrow> d)"

definition stringToNat :: "string \<Rightarrow> nat" where
  "stringToNat s = foldl (\<lambda>n c. 10 * n + digitValue c) 0 s"

definition isArrayIndex :: "string \<Rightarrow> bool" where
  "isArrayIndex k =
     (k \<noteq> [] \<and> list_all (\<lambda>c. c \<in> set ''0123456789'') k
      \<and> (k = ''0'' \<or> hd k \<noteq> CHR ''0'') \<and> stringToNat k < 4294967295)"

definition objectEntries :: "(string \<times> 'v) list \<Rightarrow> (string \<times> 'v) list" where
  "objectEntries obj =
     sort_key (\<lambda>(k, v). stringToNat k) (filter (\<lambda>(k, v). isArrayIndex k) obj)
     @ filter (\<lambda>(k, v). \<not> isArrayIndex k) obj"

text \<open>
  The emoji tables of \<open>config/embedConstants\<close> are not part of the source. They are
  parameters: a table gives the text a lookup prints, if the key has a truthy value.
  \<open>TABLE[key] || ''\<close>:
\<close>

definition orEmpty :: "string option \<Rightarrow> string" where
  "orEmpty v = (case v of None \<Rightarrow> [] | Some s \<Rightarrow> s)"

text \<open>
  The bullet and the dash of the card line are one code unit each, both above 255; the
  model writes them as the code units \<open>0x95\<close> and \<open>0x97\<close>, which no function here
  tells from any other symbol.
\<close>

definition bullet :: string where
  "bullet = [CHR 0x95]"

definition emDash :: string where
  "emDash = [CHR 0x97]"

definition newline :: string where
  "newline = [CHR 0x0A]"

definition cardLine :: "(string \<Rightarrow> string option) \<Rightarrow> card \<Rightarrow> error + string" where
  "cardLine CONDITION_EMOJIS c =
     (case condition c of
        None \<Rightarrow> Inl TypeError
      | Some d \<Rightarrow>
          (let conditionEmoji = orEmpty (CONDITION_EMOJIS (toLowerCase d))
           in Inr (''['' @ conditionEmoji @ ''] **'' @ templateString (group c) @ ''** '' @ bullet
                   @ '' '' @ templateString (name c) @ emDash @ ''`'' @ templateString (cardCode c)
                   @ ''`'' @ newline)))"

fun cardLines :: "(string \<Rightarrow> string option) \<Rightarrow> card list \<Rightarrow> string \<Rightarrow> error + string" where
  "cardLines CONDITION_EMOJIS [] description = Inr description"
| "cardLines CONDITION_EMOJIS (c # cs) description =
     (case cardLine CONDITION_EMOJIS c of
        Inl e \<Rightarrow> Inl e
      | Inr line \<Rightarrow> cardLines CONDITION_EMOJIS cs (description @ line))"

definition raritySection ::
  "(string \<Rightarrow> string option) \<Rightarrow> (string \<Rightarrow> string option) \<Rightarrow> string \<times> card list \<Rightarrow> string
     \<Rightarrow> error + string" where
  "raritySection RARITY_EMOJIS CONDITION_EMOJIS entry description =
     (case entry of
        (rarityKey, members) \<Rightarrow>
          (let rarityEmoji = orEmpty (RARITY_EMOJIS rarityKey);
               header = ''### '' @ rarityEmoji @ '' '' @ toUpperCase rarityKey @ '' (''
                        @ natToString (length members) @ '' card''
                        @ (if length members > 1 then ''s'' else '''') @ '')'' @ newline
           in case cardLines CONDITION_EMOJIS members (description @ header) of
                Inl e \<Rightarrow> Inl e
              | Inr description' \<Rightarrow> Inr (description' @ newline)))"

fun raritySections ::
  "(string \<Rightarrow> string option) \<Rightarrow> (string \<Rightarrow> string option) \<Rightarrow> (string \<times> card list) list \<Rightarrow> string
     \<Rightarrow> error + string" where
  "raritySections RARITY_EMOJIS CONDITION_EMOJIS [] description = Inr description"
| "raritySections RARITY_EMOJIS CONDITION_EMOJIS (entry # entries) description =
     (case raritySection RARITY_EMOJIS CONDITION_EMOJIS entry description of
        Inl e \<Rightarrow> Inl e
      | Inr description' \<Rightarrow> raritySections RARITY_EMOJIS CONDITION_EMOJIS entries description')"

text \<open>
  \<open>trim\<close> removes white space and line terminators at both ends; below 256 these are
  the code units \<open>0x09-0x0D\<close>, the space and the no-break space \<open>0xA0\<close>.
\<close>

definition isSpace :: "char \<Rightarrow> bool" where
  "isSpace c =
     (c \<in> set [CHR 0x09, CHR 0x0A, CHR 0x0B, CHR 0x0C, CHR 0x0D, CHR '' '', CHR 0xA0])"

definition trim :: "string \<Rightarrow> string" where
  "trim s = rev (dropWhile isSpace (rev (dropWhile isSpace s)))"

text \<open>Lines 222-226: the limit of 4096 code units.\<close>

definition limitDescription :: "string \<Rightarrow> string" where
  "limitDescription description =
     (if length description > 4096 then take 4090 description @ newline @ ''...''
      else description)"

definition buildCardDescription ::
  "(string \<Rightarrow> string option) \<Rightarrow> (string \<Rightarrow> string option) \<Rightarrow> card list \<Rightarrow> error + string" where
  "buildCardDescription RARITY_EMOJIS CONDITION_EMOJIS cards =
     (if cards = [] then Inr ''No cards found for this page.''
      else case groupCards cards [] of
             Inl e \<Rightarrow> Inl e
           | Inr grouped \<Rightarrow>
               (case raritySections RARITY_EMOJIS CONDITION_EMOJIS (objectEntries grouped) [] of
                  Inl e \<Rightarrow> Inl e
                | Inr description \<Rightarrow> Inr (limitDescription (trim description))))"

definition noEmojis :: "string \<Rightarrow> string option" where
  "noEmojis k = None"

definition starEmojis :: "string \<Rightarrow> string option" where
  "starEmojis k = (if k = ''mythic'' \<or> k = ''pristine'' then Some ''*'' else None)"

subsection \<open>Sessions: listeners, timers and the registry\<close>

definition COLLECTOR_TIMEOUT :: nat where
  "COLLECTOR_TIMEOUT = 300000"

text \<open>
  \<open>setupInteractionHandler\<close> (lines 252-297) keeps three pieces of state: the map
  \<open>activeCollectors\<close> of the module, the listeners of the client's \<open>interactionCreate\<close>
  event and the timers set with \<open>setTimeout\<close>. JavaScript runs on one event loop: a call
  of \<open>setupInteractionHandler\<close>, the delivery of an interaction to the listeners and the
  callback of a timer are each run without another of them in between, up to the points
  where the handler awaits the transport. The model is a state of that loop and one
  function per event.

  Time is a clock in milliseconds. The timers are ideal: the callback of a pending timer
  runs when the clock reaches its due time, before any event that is delivered later.

  The calls of the transport (\<open>editParent\<close>, \<open>createFollowup\<close>, \<open>message.edit\<close>) are logged
  as effects, one entry per request. Whether the transport accepts a request is not
  modelled: a rejection is caught (lines 279-286 and 292) and assigns none of the three
  pieces of state, and so does the part of the handler that runs after an \<open>await\<close>.

  A handler is a function object: its identity \<open>hid\<close> and the variables it closes over
  (\<open>message.id\<close>, \<open>authorId\<close> and \<open>cards\<close>, of which the pagination reads the length).
\<close>

record handlerFn =
  hid :: nat
  hMessage :: string
  hAuthor :: string
  hTotalCards :: nat

text \<open>An entry of \<open>activeCollectors\<close>: the handler and the timer handle.\<close>

record collector =
  handler :: nat
  timeout :: nat

text \<open>A pending timer: its due time and what its callback closes over.\<close>

record timer =
  due :: nat
  tMessage :: string
  tHandler :: nat

text \<open>
  An interaction of a message component, as the handler reads it: the identity of the
  message it belongs to, the member who caused it (\<open>interaction.member?.id\<close>, missing
  outside a guild), the button (\<open>interaction.data.custom_id\<close>) and the number that
  \<open>/Page (\d+)\//\<close> finds in the author text of the message's embed, if it matches.
\<close>

record interaction =
  iMessage :: string
  iMember :: "string option"
  custom_id :: string
  shownPage :: "nat option"

datatype effect =
  EditParent string pagination
| CodeCatalog string int
| ClearControls string

text \<open>
  The world: the registry, the listeners in the order of subscription, the pending
  timers in the order of \<open>setTimeout\<close>, the clock, the identities that the next handler
  and the next timer get, and the log of effects.
\<close>

record world =
  activeCollectors :: "string \<Rightarrow> collector option"
  listeners :: "handlerFn list"
  timers :: "(nat \<times> timer) list"
  now :: nat
  nextHandler :: nat
  nextTimer :: nat
  effects :: "effect list"

definition initialWorld :: world where
  "initialWorld =
     \<lparr>activeCollectors = (\<lambda>m. None), listeners = [], timers = [], now = 0,
      nextHandler = 0, nextTimer = 0, effects = []\<rparr>"

text \<open>
  \<open>client.removeListener\<close> takes at most one entry out of the listener array, the one
  added last among those that are the given function. \<open>clearTimeout\<close> cancels the
  timer with the given handle; a handle that is not pending is ignored.
\<close>

fun dropFirstWith :: "('a \<Rightarrow> bool) \<Rightarrow> 'a list \<Rightarrow> 'a list" where
  "dropFirstWith p [] = []"
| "dropFirstWith p (x # xs) = (if p x then xs else x # dropFirstWith p xs)"

definition removeListener :: "nat \<Rightarrow> handlerFn list \<Rightarrow> handlerFn list" where
  "removeListener h ls = rev (dropFirstWith (\<lambda>l. hid l = h) (rev ls))"

definition clearTimeout :: "nat \<Rightarrow> (nat \<times> timer) list \<Rightarrow> (nat \<times> timer) list" where
  "clearTimeout t ts = filter (\<lambda>(t', tm). t' \<noteq> t) ts"

text \<open>
  Lines 254-258: the collector that is registered for the message is cleaned up, its
  handler unsubscribed and its timer cancelled. The entry itself stays in the map until
  line 295 overwrites it.
\<close>

definition detachExisting :: "world \<Rightarrow> string \<Rightarrow> world" where
  "detachExisting w messageId =
     (case activeCollectors w messageId of
        None \<Rightarrow> w
      | Some existing \<Rightarrow>
          w\<lparr>listeners := removeListener (handler existing) (listeners w),
            timers := clearTimeout (timeout existing) (timers w)\<rparr>)"

text \<open>
  \<open>setupInteractionHandler\<close>: after the clean-up a new handler is made (line 260), its
  timer is set for \<open>COLLECTOR_TIMEOUT\<close> from now (line 289), the pair is entered in
  \<open>activeCollectors\<close> (line 295) and the handler is subscribed (line 296). The last
  argument is \<open>cards.length\<close>.
\<close>

definition setupInteractionHandler :: "world \<Rightarrow> string \<Rightarrow> string \<Rightarrow> nat \<Rightarrow> world" where
  "setupInteractionHandler w messageId authorId totalCards =
     (let w1 = detachExisting w messageId;
          h = \<lparr>hid = nextHandler w1, hMessage = messageId, hAuthor = authorId,
               hTotalCards = totalCards\<rparr>;
          t = nextTimer w1;
          w2 = w1\<lparr>timers := timers w1
                       @ [(t, \<lparr>due = now w1 + COLLECTOR_TIMEOUT, tMessage = messageId,
                               tHandler = hid h\<rparr>)],
                   nextTimer := t + 1, nextHandler := hid h + 1\<rparr>;
          w3 = w2\<lparr>activeCollectors :=
                     (activeCollectors w2)(messageId \<mapsto> \<lparr>handler = hid h, timeout = t\<rparr>)\<rparr>
      in w3\<lparr>listeners := listeners w3 @ [h]\<rparr>)"

text \<open>
  The callback given to \<open>setTimeout\<close> (lines 290-292): it deletes whatever entry the
  message has in the map, unsubscribes the handler it closes over and asks for the
  controls of the message to be cleared.
\<close>

definition timeoutCallback :: "timer \<Rightarrow> world \<Rightarrow> world" where
  "timeoutCallback tm w =
     w\<lparr>activeCollectors := (activeCollectors w)(tMessage tm := None),
       listeners := removeListener (tHandler tm) (listeners w),
       effects := effects w @ [ClearControls (tMessage tm)]\<rparr>"

text \<open>
  The loop runs the callback of a timer that is pending, once; for a handle that is not
  pending (never set, cancelled or already run) nothing runs.
\<close>

definition fireTimer :: "nat \<Rightarrow> world \<Rightarrow> world" where
  "fireTimer t w =
     (case map_of (timers w) t of
        None \<Rightarrow> w
      | Some tm \<Rightarrow> timeoutCallback tm (w\<lparr>timers := clearTimeout t (timers w)\<rparr>))"

text \<open>
  \<open>calculateNewPage(interaction, totalCards)\<close>; the shown page defaults to \<open>1\<close> when the
  author text does not match.
\<close>

definition calculateNewPage :: "interaction \<Rightarrow> nat \<Rightarrow> int" where
  "calculateNewPage i totalCards =
     (let customId = custom_id i;
          totalPages = ceilDiv totalCards PAGE_SIZE;
          currentPage = (case shownPage i of None \<Rightarrow> 1 | Some p \<Rightarrow> int p)
      in if customId = ''first'' then 1
         else if customId = ''prev'' then max 1 (currentPage - 1)
         else if customId = ''next'' then min totalPages (currentPage + 1)
         else if customId = ''last'' then totalPages
         else currentPage)"

text \<open>
  The handler of lines 260-287, called with one interaction: an interaction of another
  message or of another member is ignored (line 261); the button \<open>code_catalog\<close> sends the
  codes of the shown page; every other button re-renders the message at the new page.
\<close>

definition handle :: "handlerFn \<Rightarrow> interaction \<Rightarrow> world \<Rightarrow> world" where
  "handle h i w =
     (if iMessage i \<noteq> hMessage h \<or> iMember i \<noteq> Some (hAuthor h) then w
      else if custom_id i = ''code_catalog''
      then w\<lparr>effects := effects w
                 @ [CodeCatalog (iMessage i)
                      (case shownPage i of None \<Rightarrow> 1 | Some p \<Rightarrow> int p)]\<rparr>
      else (let newPage = calculateNewPage i (hTotalCards h);
                pagination = calculatePagination (hTotalCards h) newPage
            in w\<lparr>effects := effects w @ [EditParent (iMessage i) pagination]\<rparr>))"

text \<open>\<open>client.emit('interactionCreate', i)\<close>: every listener is called, in order.\<close>

definition emitInteraction :: "interaction \<Rightarrow> world \<Rightarrow> world" where
  "emitInteraction i w = fold (\<lambda>h. handle h i) (listeners w) w"

text \<open>
  The clock advances by \<open>dt\<close>; the timers that have come due fire, in the order in which
  they were set (all timers run for the same time, so this is the order of their due
  times).
\<close>

definition elapse :: "nat \<Rightarrow> world \<Rightarrow> world" where
  "elapse dt w =
     (let dueTimers = filter (\<lambda>(t, tm). due tm \<le> now w + dt) (timers w)
      in (fold (\<lambda>(t, tm). fireTimer t) dueTimers w)\<lparr>now := now w + dt\<rparr>)"

text \<open>
  The events of the loop and a run of the program: \<open>Setup\<close> is a call of
  \<open>setupInteractionHandler\<close> for a message, an author and a number of cards.
\<close>

datatype event =
  Setup string string nat
| Interaction interaction
| Elapse nat

fun step :: "event \<Rightarrow> world \<Rightarrow> world" where
  "step (Setup messageId authorId totalCards) w =
     setupInteractionHandler w messageId authorId totalCards"
| "step (Interaction i) w = emitInteraction i w"
| "step (Elapse dt) w = elapse dt w"

definition run :: "event list \<Rightarrow> world \<Rightarrow> world" where
  "run evs w = fold step evs w"

subsection \<open>The state of a session\<close>

text \<open>
  What holds in every state that a run reaches: the handles of the pending timers are
  distinct and each timer belongs to the registry entry of its message; the subscribed
  handlers are distinct and each is the handler of the registry entry of its message;
  every registry entry has its handler subscribed and its timer pending.
\<close>

definition timersOk :: "world \<Rightarrow> bool" where
  "timersOk w =
     (distinct (map fst (timers w))
      \<and> (\<forall>(t, tm)\<in>set (timers w).
            t < nextTimer w
            \<and> activeCollectors w (tMessage tm) = Some \<lparr>handler = tHandler tm, timeout = t\<rparr>))"

definition listenersOk :: "world \<Rightarrow> bool" where
  "listenersOk w =
     (distinct (map hid (listeners w))
      \<and> (\<forall>h\<in>set (listeners w).
            hid h < nextHandler w
            \<and> (\<exists>t. activeCollectors w (hMessage h) = Some \<lparr>handler = hid h, timeout = t\<rparr>)))"

definition registryOk :: "world \<Rightarrow> bool" where
  "registryOk w =
     (\<forall>m c. activeCollectors w m = Some c \<longrightarrow>
        (\<exists>h\<in>set (listeners w). hid h = handler c \<and> hMessage h = m)
        \<and> (\<exists>tm. map_of (timers w) (timeout c) = Some tm \<and> tMessage tm = m
               \<and> tHandler tm = handler c))"

definition liveInv :: "world \<Rightarrow> bool" where
  "liveInv w = (timersOk w \<and> listenersOk w \<and> registryOk w)"

text \<open>The listeners and timers after the clean-up of lines 254-258.\<close>

abbreviation keptListeners :: "world \<Rightarrow> string \<Rightarrow> handlerFn list" where
  "keptListeners w m \<equiv> listeners (detachExisting w m)"

abbreviation keptTimers :: "world \<Rightarrow> string \<Rightarrow> (nat \<times> timer) list" where
  "keptTimers w m \<equiv> timers (detachExisting w m)"

text \<open>How often the controls of a message have been asked to be cleared.\<close>

definition clears :: "world \<Rightarrow> string \<Rightarrow> nat" where
  "clears w m = count_list (effects w) (ClearControls m)"

text \<open>
  The session of message \<open>m\<close> with handler \<open>h\<close> and timer \<open>t\<close> is active: it is the entry
  of the registry, the handler is subscribed and the timer is pending, due at \<open>d\<close>. The
  message has no session: no entry, no handler, no timer.
\<close>

definition sessionActive :: "world \<Rightarrow> string \<Rightarrow> nat \<Rightarrow> nat \<Rightarrow> nat \<Rightarrow> bool" where
  "sessionActive w m h t d =
     (activeCollectors w m = Some \<lparr>handler = h, timeout = t\<rparr>
      \<and> map_of (timers w) t = Some \<lparr>due = d, tMessage = m, tHandler = h\<rparr>
      \<and> (\<exists>l\<in>set (listeners w). hid l = h \<and> hMessage l = m))"

definition sessionExpired :: "world \<Rightarrow> string \<Rightarrow> bool" where
  "sessionExpired w m =
     (activeCollectors w m = None
      \<and> (\<forall>l\<in>set (listeners w). hMessage l \<noteq> m)
      \<and> (\<forall>(t, tm)\<in>set (timers w). tMessage tm \<noteq> m))"

text \<open>
  A handler and a timer that have existed and are gone: the handler is not subscribed
  and the timer is not pending.
\<close>

definition retired :: "world \<Rightarrow> nat \<Rightarrow> nat \<Rightarrow> bool" where
  "retired w h t =
     (h < nextHandler w \<and> t < nextTimer w
      \<and> h \<notin> hid ` set (listeners w) \<and> t \<notin> fst ` set (timers w))"

text \<open>
  The course of a session that is not replaced: active until the clock reaches the due
  time \<open>d\<close>, then gone, with one more request to clear the controls. The course of any
  session: active before \<open>d\<close>, or gone.
\<close>

definition sessionState :: "world \<Rightarrow> string \<Rightarrow> nat \<Rightarrow> nat \<Rightarrow> nat \<Rightarrow> nat \<Rightarrow> bool" where
  "sessionState w m h t d c =
     (liveInv w
      \<and> (if now w < d then sessionActive w m h t d \<and> clears w m = c
          else activeCollectors w m = None \<and> clears w m = c + 1))"

definition sessionLife :: "world \<Rightarrow> string \<Rightarrow> nat \<Rightarrow> nat \<Rightarrow> nat \<Rightarrow> bool" where
  "sessionLife w m h t d = (liveInv w \<and> (now w < d \<and> sessionActive w m h t d \<or> retired w h t))"

subsection \<open>Example cards and queries\<close>

definition mkCard :: "string \<Rightarrow> string \<Rightarrow> string \<Rightarrow> string \<Rightarrow> string \<Rightarrow> string \<Rightarrow> card" where
  "mkCard n g r d u k =
     \<lparr>name = Some n, group = Some g, rarity = Some r, condition = Some d,
      imageURL = Some u, cardCode = Some k\<rparr>"

definition scenarioX :: card where
  "scenarioX = mkCard ''X'' ''A'' ''mythic'' ''pristine'' ''i1'' ''X1''"

definition scenarioY :: card where
  "scenarioY = mkCard ''Y'' ''B'' ''standard'' ''good'' ''i1'' ''Y1''"

definition abcCard :: card where
  "abcCard = mkCard ''abc'' ''Stars'' ''glyph'' ''mint'' ''i2'' ''S7''"

definition lowerGroupCard :: card where
  "lowerGroupCard = mkCard ''Z'' ''a'' ''mythic'' ''mint'' ''i4'' ''L1''"

definition upperGroupCard :: card where
  "upperGroupCard = mkCard ''B'' ''A'' ''mythic'' ''mint'' ''i5'' ''U1''"

definition legendaryCard :: card where
  "legendaryCard = mkCard ''Nova'' ''Stars'' ''legendary'' ''mint'' ''i6'' ''N1''"

definition noCodeCard :: card where
  "noCodeCard =
     \<lparr>name = Some ''Nova'', group = Some ''Stars'', rarity = Some ''mythic'',
      condition = Some ''mint'', imageURL = Some ''i7'', cardCode = None\<rparr>"

definition noImageCard :: card where
  "noImageCard =
     \<lparr>name = Some ''Lyra'', group = Some ''Comets'', rarity = Some ''unique'',
      condition = Some ''good'', imageURL = None, cardCode = Some ''C4''\<rparr>"

definition noImageTwin :: card where
  "noImageTwin =
     \<lparr>name = Some ''Mira'', group = Some ''Comets'', rarity = Some ''glyph'',
      condition = Some ''worn'', imageURL = None, cardCode = Some ''C5''\<rparr>"

definition undefinedUrlCard :: card where
  "undefinedUrlCard = mkCard ''Rhea'' ''Moons'' ''standard'' ''mint'' ''undefined'' ''M6''"

definition constructorCard :: card where
  "constructorCard = mkCard ''Nova'' ''Stars'' ''Constructor'' ''mint'' ''i8'' ''N2''"

definition query :: "string list \<Rightarrow> string list \<Rightarrow> bool \<Rightarrow> options" where
  "query inc exc dups =
     \<lparr>searchTerms = inc, excludeTerms = exc, userId = ''42'', page = 1, showDuplicates = dups\<rparr>"

definition noAliases :: "string list \<Rightarrow> string list" where
  "noAliases terms = terms"

text \<open>A press of the button \<open>next\<close> on message \<open>m1\<close> by its author, page 1 showing.\<close>

definition nextButton :: interaction where
  "nextButton = \<lparr>iMessage = ''m1'', iMember = Some ''u1'', custom_id = ''next'', shownPage = Some 1\<rparr>"

section \<open>Properties\<close>

subsection \<open>Facts about pagination\<close>

lemma ceilDiv_div: "ceilDiv n d = - ((- int n) div int d)"
proof -
  have "\<lceil>real_of_int (int n) / real_of_int (int d)\<rceil> = - ((- int n) div int d)"
    by (rule ceiling_divide_eq_div)
  then show ?thesis by (simp add: ceilDiv_def)
qed

lemma ceilDiv_nonneg: "0 \<le> ceilDiv n d"
proof -
  have "(0::real) \<le> real n / real d" by simp
  then have "\<lceil>0::real\<rceil> \<le> \<lceil>real n / real d\<rceil>" by (rule ceiling_mono)
  then show ?thesis by (simp add: ceilDiv_def)
qed

text \<open>
  C2. For every item count and every requested page (zero, negative or beyond the last
  page included), \<open>calculatePagination\<close> returns
  \<open>totalPages = max(1, ceil(totalItems / 12))\<close> and
  \<open>currentPage = clamp(requestedPage, 1, totalPages)\<close>, hence \<open>totalPages \<ge> 1\<close> and
  \<open>1 \<le> currentPage \<le> totalPages\<close>; with 25 items and requested page 0 the result is
  page 1 of 3.
\<close>

theorem calculatePagination_clamped:
  "totalPages (calculatePagination n p) = max 1 \<lceil>real n / 12\<rceil>
   \<and> currentPage (calculatePagination n p) = clamp p 1 (totalPages (calculatePagination n p))
   \<and> pageSize (calculatePagination n p) = 12
   \<and> 1 \<le> totalPages (calculatePagination n p)
   \<and> 1 \<le> currentPage (calculatePagination n p)
   \<and> currentPage (calculatePagination n p) \<le> totalPages (calculatePagination n p)
   \<and> currentPage (calculatePagination 25 0) = 1
   \<and> totalPages (calculatePagination 25 0) = 3"
proof -
  have c25: "ceilDiv 25 12 = 3"
    by (simp add: ceilDiv_div)
  have tp: "totalPages (calculatePagination m q) = max 1 (ceilDiv m 12)" for m q
    by (simp add: calculatePagination_def Let_def PAGE_SIZE_def)
  have cp: "currentPage (calculatePagination m q) = max 1 (min (orOne q) (max 1 (ceilDiv m 12)))"
    for m q
    by (simp add: calculatePagination_def Let_def PAGE_SIZE_def)
  have cd: "ceilDiv n 12 = \<lceil>real n / 12\<rceil>"
    by (simp add: ceilDiv_def)
  define t where "t = max 1 (ceilDiv n 12)"
  have t1: "1 \<le> t"
    by (simp add: t_def)
  have cl: "max 1 (min (orOne p) t) = clamp p 1 t"
    using t1 by (auto simp add: clamp_def orOne_def max_def min_def)
  have rng: "1 \<le> clamp p 1 t" "clamp p 1 t \<le> t"
    using t1 by (auto simp add: clamp_def)
  have a: "totalPages (calculatePagination n p) = max 1 \<lceil>real n / 12\<rceil>"
    by (simp add: tp cd)
  have b: "currentPage (calculatePagination n p) = clamp p 1 (totalPages (calculatePagination n p))"
    using cl by (simp add: tp cp t_def)
  have c: "pageSize (calculatePagination n p) = 12"
    by (simp add: calculatePagination_def Let_def PAGE_SIZE_def)
  have d: "1 \<le> totalPages (calculatePagination n p)"
    by (simp add: tp)
  have e: "1 \<le> currentPage (calculatePagination n p)"
    by (simp add: cp)
  have f: "currentPage (calculatePagination n p) \<le> totalPages (calculatePagination n p)"
    using rng(2) cl by (simp add: tp cp t_def)
  have g: "currentPage (calculatePagination 25 0) = 1" "totalPages (calculatePagination 25 0) = 3"
    by (simp_all add: tp cp c25 orOne_def)
  from a b c d e f g show ?thesis
    by blast
qed

theorem calculatePagination_clamped_witness:
  "currentPage (calculatePagination 30 (- 4)) = 1
   \<and> totalPages (calculatePagination 30 (- 4)) = 3
   \<and> currentPage (calculatePagination 30 7) = 3
   \<and> currentPage (calculatePagination 0 0) = 1
   \<and> totalPages (calculatePagination 0 0) = 1"
proof -
  have c30: "\<lceil>real 30 / 12\<rceil> = 3" "\<lceil>real 0 / 12\<rceil> = 0"
    by (simp_all add: ceiling_divide_eq_div_numeral)
  show ?thesis
    using calculatePagination_clamped [of 30 "- 4"] calculatePagination_clamped [of 30 7]
      calculatePagination_clamped [of 0 0]
    by (simp add: clamp_def c30)
qed

subsection \<open>Callbacks that do not throw\<close>

lemma everyE_pure:
  "(\<And>x. x \<in> set xs \<Longrightarrow> p x = Inr (q x)) \<Longrightarrow> everyE p xs = Inr (list_all q xs)"
  by (induction xs) (auto split: bool.splits)

lemma someE_pure:
  "(\<And>x. x \<in> set xs \<Longrightarrow> p x = Inr (q x)) \<Longrightarrow> someE p xs = Inr (list_ex q xs)"
  by (induction xs) (auto split: bool.splits)

lemma filterE_pure:
  "(\<And>x. x \<in> set xs \<Longrightarrow> p x = Inr (q x)) \<Longrightarrow> filterE p xs = Inr (filter q xs)"
  by (induction xs) auto

lemma truthy_Some: "truthy v \<Longrightarrow> \<exists>s. v = Some s \<and> s \<noteq> []"
  by (cases v) (auto simp: truthy_def)

lemma hasFields_strings:
  assumes "hasFields c"
  obtains n g r d k where "name c = Some n" "group c = Some g" "rarity c = Some r"
    "condition c = Some d" "cardCode c = Some k" "n \<noteq> []" "g \<noteq> []" "r \<noteq> []" "d \<noteq> []"
proof -
  from assms have "truthy (name c)" "truthy (group c)" "truthy (rarity c)" "truthy (condition c)"
    "cardCode c \<noteq> None"
    by (simp_all add: hasFields_def isValidCard_def)
  then show ?thesis
    using that by (auto dest!: truthy_Some)
qed

lemma cardMatchesTerm_pure:
  assumes "hasFields c"
  shows "cardMatchesTerm c term = Inr (termMatches c term)"
proof -
  from assms obtain n g r d k where f: "name c = Some n" "group c = Some g" "rarity c = Some r"
    "condition c = Some d" "cardCode c = Some k"
    by (rule hasFields_strings)
  show ?thesis
    by (simp add: cardMatchesTerm_def termMatches_def fiveFields_def f lowerIncludes_def
        orElse_def List.map_filter_simps split: bool.splits)
qed

lemma matchesSearch_eq: "matchesSearch c terms = someE (cardMatchesTerm c) terms"
proof -
  have "cardMatchesTerm c = (\<lambda>term.
        orElse (lowerIncludes (name c) term)
       (orElse (lowerIncludes (group c) term)
       (orElse (lowerIncludes (rarity c) term)
       (orElse (lowerIncludes (condition c) term)
               (lowerIncludes (cardCode c) term)))))"
    by (rule ext) (simp add: cardMatchesTerm_def)
  then show ?thesis
    by (simp add: matchesSearch_def)
qed

lemma matchesSearch_pure:
  assumes "hasFields c"
  shows "matchesSearch c terms = Inr (list_ex (termMatches c) terms)"
  unfolding matchesSearch_eq
  by (rule someE_pure) (simp add: cardMatchesTerm_pure[OF assms])

lemma includeFilter_pure:
  assumes "list_all hasFields cards"
  shows "includeFilter terms cards = Inr (filter (\<lambda>c. list_all (termMatches c) terms) cards)"
proof (cases "terms = []")
  case True
  then show ?thesis by (simp add: includeFilter_def)
next
  case False
  have "filterE (\<lambda>c. everyE (\<lambda>term. cardMatchesTerm c term) terms) cards
          = Inr (filter (\<lambda>c. list_all (termMatches c) terms) cards)"
  proof (rule filterE_pure)
    fix c assume "c \<in> set cards"
    with assms have "hasFields c" by (simp add: list_all_iff)
    then show "everyE (\<lambda>term. cardMatchesTerm c term) terms = Inr (list_all (termMatches c) terms)"
      by (intro everyE_pure) (simp add: cardMatchesTerm_pure)
  qed
  with False show ?thesis by (simp add: includeFilter_def)
qed

lemma excludeFilter_pure:
  assumes "list_all hasFields cards"
  shows "excludeFilter terms cards = Inr (filter (\<lambda>c. \<not> list_ex (termMatches c) terms) cards)"
proof (cases "terms = []")
  case True
  then show ?thesis by (simp add: excludeFilter_def)
next
  case False
  have "filterE (\<lambda>c. notE (matchesSearch c terms)) cards
          = Inr (filter (\<lambda>c. \<not> list_ex (termMatches c) terms) cards)"
  proof (rule filterE_pure)
    fix c assume "c \<in> set cards"
    with assms have "hasFields c" by (simp add: list_all_iff)
    then show "notE (matchesSearch c terms) = Inr (\<not> list_ex (termMatches c) terms)"
      by (simp add: matchesSearch_pure notE_def)
  qed
  with False show ?thesis by (simp add: excludeFilter_def)
qed

lemma folded_term_match:
  "toLowerCase term = term \<Longrightarrow>
     caseInsensitiveSubstring term field = stringIncludes (toLowerCase field) term"
  by (simp add: caseInsensitiveSubstring_def stringIncludes_def)

lemma specIncludeKeeps_folded:
  assumes "list_all (\<lambda>term. toLowerCase term = term) terms"
  shows "specIncludeKeeps terms c = list_all (termMatches c) terms"
proof -
  have "list_ex (\<lambda>field. caseInsensitiveSubstring t field) (fiveFields c) = termMatches c t"
    if "t \<in> set terms" for t
  proof -
    from assms that have "toLowerCase t = t" by (simp add: list_all_iff)
    then show ?thesis
      by (simp add: termMatches_def folded_term_match)
  qed
  then show ?thesis
    by (simp add: specIncludeKeeps_def list_all_iff)
qed

subsection \<open>Insertion sort with a comparator\<close>

lemma insertSorted_total:
  assumes "\<And>y. y \<in> set ys \<Longrightarrow> \<exists>v. cmp x y = Inr v"
  shows "\<exists>zs. insertSorted cmp x ys = Inr zs \<and> mset zs = add_mset x (mset ys)"
  using assms
proof (induction ys)
  case Nil
  then show ?case by simp
next
  case (Cons y ys)
  from Cons.prems obtain v where v: "cmp x y = Inr v" by auto
  from Cons obtain zs where zs: "insertSorted cmp x ys = Inr zs" "mset zs = add_mset x (mset ys)"
    by auto
  show ?case
    by (cases "notAfter v") (simp_all add: v zs)
qed

lemma insertionSort_total:
  assumes "\<And>x y. x \<in> set xs \<Longrightarrow> y \<in> set xs \<Longrightarrow> \<exists>v. cmp x y = Inr v"
  shows "\<exists>ys. insertionSort cmp xs = Inr ys \<and> mset ys = mset xs"
  using assms
proof (induction xs)
  case Nil
  then show ?case by simp
next
  case (Cons x xs)
  from Cons obtain ys where ys: "insertionSort cmp xs = Inr ys" "mset ys = mset xs"
    by auto
  have "set ys = set xs"
    using ys(2) by (rule mset_eq_setD)
  then have "\<exists>zs. insertSorted cmp x ys = Inr zs \<and> mset zs = add_mset x (mset ys)"
    using Cons.prems by (intro insertSorted_total) simp
  then show ?case
    by (auto simp add: ys)
qed

lemma insertSorted_sorted:
  assumes cmp: "\<And>y. y \<in> set ys \<Longrightarrow> \<exists>v. cmp x y = Inr v \<and> notAfter v = le x y"
    and total: "\<And>y. y \<in> set ys \<Longrightarrow> le x y \<or> le y x"
    and trans: "\<And>y z. y \<in> set ys \<Longrightarrow> z \<in> set ys \<Longrightarrow> le x y \<Longrightarrow> le y z \<Longrightarrow> le x z"
    and sorted: "sorted_wrt le ys"
    and res: "insertSorted cmp x ys = Inr zs"
  shows "sorted_wrt le zs"
  using assms
proof (induction ys arbitrary: zs)
  case Nil
  then show ?case by auto
next
  case (Cons y ys)
  from Cons.prems(1) obtain v where v: "cmp x y = Inr v" "notAfter v = le x y" by auto
  show ?case
  proof (cases "le x y")
    case True
    with v Cons.prems(5) have zs: "zs = x # y # ys" by simp
    have "le x z" if "z \<in> set ys" for z
    proof -
      from Cons.prems(4) that have "le y z" by simp
      with True that show ?thesis
        using Cons.prems(3)[of y z] by simp
    qed
    with True Cons.prems(4) show ?thesis
      by (simp add: zs)
  next
    case False
    with v Cons.prems(5) obtain ws where ws: "insertSorted cmp x ys = Inr ws" "zs = y # ws"
      by (auto split: sum.splits)
    have sw: "sorted_wrt le ws"
    proof (rule Cons.IH[OF _ _ _ _ ws(1)])
      show "sorted_wrt le ys" using Cons.prems(4) by simp
      show "\<And>u. u \<in> set ys \<Longrightarrow> \<exists>v. cmp x u = Inr v \<and> notAfter v = le x u"
        using Cons.prems(1) by simp
      show "\<And>u. u \<in> set ys \<Longrightarrow> le x u \<or> le u x"
        using Cons.prems(2) by simp
      show "le x w" if "u \<in> set ys" "w \<in> set ys" "le x u" "le u w" for u w
        using Cons.prems(3)[of u w] that by simp
    qed
    have "\<exists>us. insertSorted cmp x ys = Inr us \<and> mset us = add_mset x (mset ys)"
      using Cons.prems(1) by (intro insertSorted_total) auto
    with ws have "mset ws = add_mset x (mset ys)" by simp
    then have "set_mset (mset ws) = set_mset (add_mset x (mset ys))"
      by simp
    then have "set ws = insert x (set ys)"
      by simp
    moreover have "le y x"
      using False Cons.prems(2)[of y] by simp
    ultimately show ?thesis
      using sw Cons.prems(4) by (simp add: ws)
  qed
qed





lemma insertionSort_sorted:
  assumes cmp: "\<forall>x\<in>set xs. \<forall>y\<in>set xs. \<exists>v. cmp x y = Inr v \<and> notAfter v = le x y"
    and total: "\<forall>x\<in>set xs. \<forall>y\<in>set xs. le x y \<or> le y x"
    and trans: "\<forall>x\<in>set xs. \<forall>y\<in>set xs. \<forall>z\<in>set xs. le x y \<longrightarrow> le y z \<longrightarrow> le x z"
  shows "\<exists>ys. insertionSort cmp xs = Inr ys \<and> mset ys = mset xs \<and> sorted_wrt le ys"
  using assms
proof (induction xs)
  case Nil
  have "insertionSort cmp [] = Inr [] \<and> mset [] = mset [] \<and> sorted_wrt le []"
    by simp
  then show ?case by (rule exI)
next
  case (Cons x xs)
  have "\<exists>ys. insertionSort cmp xs = Inr ys \<and> mset ys = mset xs \<and> sorted_wrt le ys"
  proof (rule Cons.IH)
    show "\<forall>a\<in>set xs. \<forall>b\<in>set xs. \<exists>v. cmp a b = Inr v \<and> notAfter v = le a b"
      using Cons.prems(1) by simp
    show "\<forall>a\<in>set xs. \<forall>b\<in>set xs. le a b \<or> le b a"
      using Cons.prems(2) by simp
    show "\<forall>a\<in>set xs. \<forall>b\<in>set xs. \<forall>c\<in>set xs. le a b \<longrightarrow> le b c \<longrightarrow> le a c"
      using Cons.prems(3) by (blast intro: list.set_intros)
  qed
  then obtain ys where ys: "insertionSort cmp xs = Inr ys" "mset ys = mset xs" "sorted_wrt le ys"
    by auto
  have "set_mset (mset ys) = set_mset (mset xs)"
    using ys(2) by simp
  then have sy: "set ys = set xs"
    by simp
  have "\<exists>zs. insertSorted cmp x ys = Inr zs \<and> mset zs = add_mset x (mset ys)"
  proof (rule insertSorted_total)
    fix y assume "y \<in> set ys"
    then have "\<exists>v. cmp x y = Inr v \<and> notAfter v = le x y"
      using Cons.prems(1) sy by simp
    then show "\<exists>v. cmp x y = Inr v"
      by blast
  qed
  then obtain zs where zs: "insertSorted cmp x ys = Inr zs" "mset zs = add_mset x (mset ys)"
    by auto
  have "sorted_wrt le zs"
  proof (rule insertSorted_sorted[OF _ _ _ ys(3) zs(1)])
    show "\<And>y. y \<in> set ys \<Longrightarrow> \<exists>v. cmp x y = Inr v \<and> notAfter v = le x y"
      using Cons.prems(1) sy by simp
    show "\<And>y. y \<in> set ys \<Longrightarrow> le x y \<or> le y x"
      using Cons.prems(2) sy by simp
    show "le x z" if "y \<in> set ys" "z \<in> set ys" "le x y" "le y z" for y z
    proof -
      have "x \<in> set (x # xs)" "y \<in> set (x # xs)" "z \<in> set (x # xs)"
        using that sy by simp_all
      with Cons.prems(3) that(3,4) show ?thesis
        by blast
    qed
  qed
  then show ?case
    by (simp add: ys zs)
qed

subsection \<open>The comparator\<close>

lemma rankDiff_Some: "rankDiff order (Some x) (Some y) = Inr (jsSub (order (toLowerCase x)) (order (toLowerCase y)))"
  by (simp add: rankDiff_def)

lemma compareCards_valid:
  assumes "isValidCard a" "isValidCard b"
  shows "\<exists>v. compareCards lc a b = Inr v"
proof -
  from assms obtain na ga ra da nb gb rb db where
    a: "name a = Some na" "group a = Some ga" "rarity a = Some ra" "condition a = Some da" and
    b: "name b = Some nb" "group b = Some gb" "rarity b = Some rb" "condition b = Some db"
    by (auto simp add: isValidCard_def dest!: truthy_Some)
  show ?thesis
    by (simp add: compareCards_def a b rankDiff_Some localeCompareE_def orNum_def
        split: option.splits)
qed

lemma compareCards_known_value:
  assumes "knownRanks a" "knownRanks b"
  shows "compareCards lc a b = Inr (Some (compareKnown lc a b))"
proof -
  from assms have "isValidCard a" "isValidCard b"
    by (simp_all add: knownRanks_def)
  then obtain na ga ra da nb gb rb db where
    a: "name a = Some na" "group a = Some ga" "rarity a = Some ra" "condition a = Some da" and
    b: "name b = Some nb" "group b = Some gb" "rarity b = Some rb" "condition b = Some db"
    by (auto simp add: isValidCard_def dest!: truthy_Some)
  from assms obtain pa qa pb qb where
    r: "RARITY_ORDER (toLowerCase ra) = Some pa" "CONDITION_ORDER (toLowerCase da) = Some qa"
       "RARITY_ORDER (toLowerCase rb) = Some pb" "CONDITION_ORDER (toLowerCase db) = Some qb"
    by (auto simp add: knownRanks_def a b templateString_def)
  have rk: "rarityRank a = pa" "rarityRank b = pb" "conditionRank a = qa" "conditionRank b = qb"
    by (simp_all add: rarityRank_def conditionRank_def a b r templateString_def)
  show ?thesis
    unfolding compareKnown_def rk
    by (simp add: compareCards_def a b r rankDiff_Some localeCompareE_def orNum_def
        jsSub_def templateString_def)
qed

lemma compareKnown_le: "(compareKnown lc a b \<le> 0) = sortOrder lc a b"
  by (auto simp add: compareKnown_def sortOrder_def)

lemma compareCards_known:
  assumes "knownRanks a" "knownRanks b"
  shows "\<exists>v. compareCards lc a b = Inr v \<and> notAfter v = sortOrder lc a b"
proof -
  from compareCards_known_value[OF assms, of lc] compareKnown_le[of lc a b]
  show ?thesis
    by (simp add: notAfter_def)
qed

lemma sortOrder_total:
  assumes "consistentCollation lc"
  shows "sortOrder lc a b \<or> sortOrder lc b a"
proof -
  from assms have anti: "\<And>x y. (lc x y < 0) = (0 < lc y x)"
    by (simp add: consistentCollation_def)
  have z: "lc x y = 0 \<Longrightarrow> lc y x = 0" for x y
    using anti[of x y] anti[of y x] by linarith
  have t: "lc x y \<le> 0 \<or> lc y x \<le> 0" for x y
    using anti[of x y] by linarith
  show ?thesis
    unfolding sortOrder_def
    using anti z t by (smt (verit))
qed

lemma sortOrder_trans:
  assumes "consistentCollation lc" "sortOrder lc a b" "sortOrder lc b c"
  shows "sortOrder lc a c"
proof -
  from assms(1) have
    t1: "\<And>x y z. lc x y \<le> 0 \<Longrightarrow> lc y z \<le> 0 \<Longrightarrow> lc x z \<le> 0" and
    t2: "\<And>x y z. lc x y \<le> 0 \<Longrightarrow> lc y z < 0 \<Longrightarrow> lc x z < 0" and
    t3: "\<And>x y z. lc x y < 0 \<Longrightarrow> lc y z \<le> 0 \<Longrightarrow> lc x z < 0"
    unfolding consistentCollation_def by blast+
  show ?thesis
    using assms(2,3) unfolding sortOrder_def
    by (smt (verit) t1 t2 t3)
qed

lemma compareKnown_consistent:
  assumes "consistentCollation lc"
  shows "compareKnown lc a a = 0"
    and "compareKnown lc a b = 0 \<Longrightarrow> compareKnown lc b a = 0"
    and "compareKnown lc a b = 0 \<Longrightarrow> compareKnown lc b c = 0 \<Longrightarrow> compareKnown lc a c = 0"
    and "compareKnown lc a b < 0 \<Longrightarrow> compareKnown lc b c < 0 \<Longrightarrow> compareKnown lc a c < 0"
    and "0 < compareKnown lc a b \<Longrightarrow> 0 < compareKnown lc b c \<Longrightarrow> 0 < compareKnown lc a c"
proof -
  from assms have
    r: "\<And>x. lc x x = 0" and
    anti: "\<And>x y. (lc x y < 0) = (0 < lc y x)" and
    t1: "\<And>x y z. lc x y \<le> 0 \<Longrightarrow> lc y z \<le> 0 \<Longrightarrow> lc x z \<le> 0" and
    t2: "\<And>x y z. lc x y \<le> 0 \<Longrightarrow> lc y z < 0 \<Longrightarrow> lc x z < 0" and
    t3: "\<And>x y z. lc x y < 0 \<Longrightarrow> lc y z \<le> 0 \<Longrightarrow> lc x z < 0"
    unfolding consistentCollation_def by blast+
  have z: "lc x y = 0 \<Longrightarrow> lc y x = 0" for x y
    using anti[of x y] anti[of y x] by linarith
  have zt: "lc x y = 0 \<Longrightarrow> lc y z = 0 \<Longrightarrow> lc x z = 0" for x y z
  proof -
    assume a: "lc x y = 0" "lc y z = 0"
    then have "lc x z \<le> 0" using t1[of x y z] by simp
    moreover from a have "lc z y = 0" "lc y x = 0" by (simp_all add: z)
    then have "lc z x \<le> 0" using t1[of z y x] by simp
    then have "\<not> lc x z < 0" using anti[of x z] by simp
    ultimately show ?thesis by simp
  qed
  have zl: "lc x y = 0 \<Longrightarrow> lc y z < 0 \<Longrightarrow> lc x z < 0" for x y z
    using t2[of x y z] by simp
  have lz: "lc x y < 0 \<Longrightarrow> lc y z = 0 \<Longrightarrow> lc x z < 0" for x y z
    using t3[of x y z] by simp
  have ll: "lc x y < 0 \<Longrightarrow> lc y z < 0 \<Longrightarrow> lc x z < 0" for x y z
    using t3[of x y z] by simp
  have gg: "0 < lc x y \<Longrightarrow> 0 < lc y z \<Longrightarrow> 0 < lc x z" for x y z
    using ll[of z y x] anti[of y x] anti[of z y] anti[of z x] by simp
  have zg: "lc x y = 0 \<Longrightarrow> 0 < lc y z \<Longrightarrow> 0 < lc x z" for x y z
    using lz[of z y x] z[of x y] anti[of z y] anti[of z x] by simp
  have gz: "0 < lc x y \<Longrightarrow> lc y z = 0 \<Longrightarrow> 0 < lc x z" for x y z
    using zl[of z y x] z[of y z] anti[of y x] anti[of z x] by simp
  show "compareKnown lc a a = 0"
    by (simp add: compareKnown_def r)
  show "compareKnown lc a b = 0 \<Longrightarrow> compareKnown lc b a = 0"
    unfolding compareKnown_def using z by (smt (verit))
  show "compareKnown lc a b = 0 \<Longrightarrow> compareKnown lc b c = 0 \<Longrightarrow> compareKnown lc a c = 0"
    unfolding compareKnown_def using zt by (smt (verit))
  show "compareKnown lc a b < 0 \<Longrightarrow> compareKnown lc b c < 0 \<Longrightarrow> compareKnown lc a c < 0"
    unfolding compareKnown_def using zt zl lz ll by (smt (verit))
  show "0 < compareKnown lc a b \<Longrightarrow> 0 < compareKnown lc b c \<Longrightarrow> 0 < compareKnown lc a c"
    unfolding compareKnown_def using zt zg gz gg by (smt (verit))
qed

lemma compareCards_consistent:
  assumes c: "consistentCollation lc" and k: "list_all knownRanks cards"
  shows "consistentComparator (compareCards lc) cards"
proof -
  have v: "compareCards lc a b = Inr (Some (compareKnown lc a b))"
    if "a \<in> set cards" "b \<in> set cards" for a b
    using that k by (simp add: list_all_iff compareCards_known_value)
  have e: "equalCF (compareCards lc) a b = (compareKnown lc a b = 0)"
    and l: "lessCF (compareCards lc) a b = (compareKnown lc a b < 0)"
    and g: "greaterCF (compareCards lc) a b = (0 < compareKnown lc a b)"
    if "a \<in> set cards" "b \<in> set cards" for a b
    using v[OF that] by (simp_all add: equalCF_def lessCF_def greaterCF_def)
  note ck = compareKnown_consistent[OF c]
  have 1: "\<forall>a\<in>set cards. \<forall>b\<in>set cards. \<exists>n. compareCards lc a b = Inr (Some n)"
    using v by blast
  have 2: "\<forall>a\<in>set cards. equalCF (compareCards lc) a a"
    using e ck(1) by simp
  have 3: "\<forall>a\<in>set cards. \<forall>b\<in>set cards.
             equalCF (compareCards lc) a b \<longrightarrow> equalCF (compareCards lc) b a"
    using e ck(2) by simp
  have 4: "\<forall>a\<in>set cards. \<forall>b\<in>set cards. \<forall>c\<in>set cards.
             equalCF (compareCards lc) a b \<and> equalCF (compareCards lc) b c
             \<longrightarrow> equalCF (compareCards lc) a c"
    using e ck(3) by blast
  have 5: "\<forall>a\<in>set cards. \<forall>b\<in>set cards. \<forall>c\<in>set cards.
             lessCF (compareCards lc) a b \<and> lessCF (compareCards lc) b c
             \<longrightarrow> lessCF (compareCards lc) a c"
    using l ck(4) by blast
  have 6: "\<forall>a\<in>set cards. \<forall>b\<in>set cards. \<forall>c\<in>set cards.
             greaterCF (compareCards lc) a b \<and> greaterCF (compareCards lc) b c
             \<longrightarrow> greaterCF (compareCards lc) a c"
    using g ck(5) by blast
  from 1 2 3 4 5 6 show ?thesis
    unfolding consistentComparator_def by blast
qed

lemma conformingSort_insertionSort: "conformingSort insertionSort"
  unfolding conformingSort_def
proof (intro allI conjI impI)
  fix cmp :: "'a comparator" and xs :: "'a list"
  assume "\<forall>a\<in>set xs. \<forall>b\<in>set xs. \<exists>v. cmp a b = Inr v"
  then show "\<exists>ys. insertionSort cmp xs = Inr ys \<and> mset ys = mset xs"
    by (intro insertionSort_total) blast
qed simp

subsection \<open>Counting image keys\<close>

lemma countCard_distinct: "distinct (map fst m) \<Longrightarrow> distinct (map fst (countCard c m))"
  by (simp add: countCard_def Let_def distinct_update)

lemma map_of_countCard:
  "map_of (countCard c m) k =
     (if k = templateString (imageURL c)
      then Some ((case map_of m k of None \<Rightarrow> 0 | Some n \<Rightarrow> n) + 1)
      else map_of m k)"
  by (simp add: countCard_def Let_def update_conv')

lemma fold_countCard_distinct:
  "distinct (map fst m) \<Longrightarrow> distinct (map fst (fold countCard cs m))"
  by (induction cs arbitrary: m) (simp_all add: countCard_distinct)

lemma map_of_fold_countCard:
  "map_of (fold countCard cs m) k =
     (if filter (\<lambda>c. templateString (imageURL c) = k) cs = [] then map_of m k
      else Some ((case map_of m k of None \<Rightarrow> 0 | Some n \<Rightarrow> n)
                  + length (filter (\<lambda>c. templateString (imageURL c) = k) cs)))"
proof (induction cs arbitrary: m)
  case Nil
  then show ?case by simp
next
  case (Cons c cs)
  show ?case
    by (simp add: Cons.IH map_of_countCard split: option.splits)
qed

lemma keys_filter_distinct:
  assumes "distinct (map fst al)"
  shows "set (map fst (filter (\<lambda>(k, v). P v) al)) = {k. \<exists>v. map_of al k = Some v \<and> P v}"
proof -
  have m: "(map_of al k = Some v) = ((k, v) \<in> set al)" for k v
    using assms by (rule map_of_eq_Some_iff)
  show ?thesis
  proof (rule set_eqI)
    fix k
    have "k \<in> set (map fst (filter (\<lambda>(k, v). P v) al)) = (\<exists>v. (k, v) \<in> set al \<and> P v)"
      by force
    then show "(k \<in> set (map fst (filter (\<lambda>(k, v). P v) al))) = (k \<in> {k. \<exists>v. map_of al k = Some v \<and> P v})"
      by (simp add: m)
  qed
qed

lemma findDuplicates_set:
  "set (findDuplicates cs) = {k. 2 \<le> length (filter (\<lambda>c. templateString (imageURL c) = k) cs)}"
proof -
  have d: "distinct (map fst (fold countCard cs []))"
    by (rule fold_countCard_distinct) simp
  have "set (findDuplicates cs)
      = {k. \<exists>v. map_of (fold countCard cs []) k = Some v \<and> 1 < v}"
    unfolding findDuplicates_def Let_def
    using keys_filter_distinct[OF d, of "\<lambda>v. 1 < v"] by simp
  also have "\<dots> = {k. 2 \<le> length (filter (\<lambda>c. templateString (imageURL c) = k) cs)}"
    by (auto simp add: map_of_fold_countCard split: if_splits)
  finally show ?thesis .
qed

lemma duplicatesFilter_pure:
  assumes "list_all (\<lambda>c. imageURL c \<noteq> None) filtered"
  shows "duplicatesFilter True filtered = filter (\<lambda>c. 2 \<le> imageKeyCount filtered c) filtered"
proof -
  have eq: "setHas (findDuplicates filtered) (imageURL c) = (2 \<le> imageKeyCount filtered c)"
    if "c \<in> set filtered" for c
  proof -
    from assms that obtain u where u: "imageURL c = Some u"
      by (auto simp add: list_all_iff)
    have "filter (\<lambda>d. templateString (imageURL d) = u) filtered
        = filter (\<lambda>d. imageURL d = imageURL c) filtered"
    proof (rule filter_cong[OF refl])
      fix d assume "d \<in> set filtered"
      with assms obtain w where "imageURL d = Some w"
        by (auto simp add: list_all_iff)
      then show "(templateString (imageURL d) = u) = (imageURL d = imageURL c)"
        by (simp add: templateString_def u)
    qed
    then show ?thesis
      by (simp add: setHas_def u findDuplicates_set imageKeyCount_def)
  qed
  show ?thesis
    unfolding duplicatesFilter_def Let_def
    using eq by (simp cong: filter_cong)
qed

lemma duplicatesFilter_subset: "set (duplicatesFilter b cs) \<subseteq> set cs"
  by (auto simp add: duplicatesFilter_def Let_def)

lemma sortCards_valid:
  assumes "conformingSort arraySort" "list_all isValidCard cs"
  shows "\<exists>res. sortCards arraySort lc cs = Inr res \<and> mset res = mset cs"
proof -
  have "\<forall>a\<in>set cs. \<forall>b\<in>set cs. \<exists>v. compareCards lc a b = Inr v"
    using assms(2) by (simp add: list_all_iff compareCards_valid)
  with assms(1) show ?thesis
    unfolding sortCards_def conformingSort_def by blast
qed

lemma processCards_pure:
  assumes "conformingSort arraySort"
    and "list_all (\<lambda>c. isValidCard c \<longrightarrow> cardCode c \<noteq> None) cards"
  shows "\<exists>res. processCards arraySort expandAll lc cards opts = Inr res
     \<and> mset res = mset (duplicatesFilter (showDuplicates opts)
         (filter (queryKeeps (expandAll (searchTerms opts)) (expandAll (excludeTerms opts))) cards))"
proof -
  define inc where "inc = expandAll (searchTerms opts)"
  define exc where "exc = expandAll (excludeTerms opts)"
  define f0 where "f0 = filter isValidCard cards"
  define f1 where "f1 = filter (\<lambda>c. list_all (termMatches c) inc) f0"
  define f2 where "f2 = filter (\<lambda>c. \<not> list_ex (termMatches c) exc) f1"
  define f3 where "f3 = duplicatesFilter (showDuplicates opts) f2"
  have h0: "list_all hasFields f0"
    using assms(2) by (auto simp add: f0_def list_all_iff hasFields_def)
  then have h1: "list_all hasFields f1"
    by (simp add: f1_def list_all_iff)
  have v2: "list_all isValidCard f2"
    using h1 by (simp add: f2_def list_all_iff hasFields_def)
  have v3: "list_all isValidCard f3"
    using v2 duplicatesFilter_subset[of "showDuplicates opts" f2]
    by (auto simp add: f3_def list_all_iff)
  have i: "includeFilter inc f0 = Inr f1"
    using includeFilter_pure[OF h0] by (simp add: f1_def)
  have e: "excludeFilter exc f1 = Inr f2"
    using excludeFilter_pure[OF h1] by (simp add: f2_def)
  have p: "processCards arraySort expandAll lc cards opts = sortCards arraySort lc f3"
    by (simp add: processCards_def Let_def i e f3_def
        inc_def[symmetric] exc_def[symmetric] f0_def[symmetric])
  have f: "f2 = filter (queryKeeps inc exc) cards"
    by (auto simp add: f2_def f1_def f0_def queryKeeps_def intro: filter_cong)
  from sortCards_valid[OF assms(1) v3, of lc] p f show ?thesis
    by (simp add: f3_def inc_def exc_def)
qed

lemma processCards_unfiltered:
  assumes "conformingSort arraySort"
    and "expandAll (searchTerms opts) = []" "expandAll (excludeTerms opts) = []"
    and "\<not> showDuplicates opts"
  shows "\<exists>res. processCards arraySort expandAll lc cards opts = Inr res
     \<and> mset res = mset (filter isValidCard cards)"
proof -
  have "processCards arraySort expandAll lc cards opts
      = sortCards arraySort lc (filter isValidCard cards)"
    using assms(2,3,4)
    by (simp add: processCards_def Let_def includeFilter_def excludeFilter_def
        duplicatesFilter_def)
  moreover have "list_all isValidCard (filter isValidCard cards)"
    by (simp add: list_all_iff)
  from sortCards_valid[OF assms(1) this, of lc]
  have "\<exists>res. sortCards arraySort lc (filter isValidCard cards) = Inr res
          \<and> mset res = mset (filter isValidCard cards)" .
  ultimately show ?thesis by simp
qed

subsection \<open>Evaluation of the examples\<close>

lemmas cardDefs = mkCard_def scenarioX_def scenarioY_def abcCard_def
  lowerGroupCard_def upperGroupCard_def legendaryCard_def noCodeCard_def query_def
  noAliases_def noImageCard_def noImageTwin_def undefinedUrlCard_def constructorCard_def
lemmas stringDefs = toLowerCase_def lowerChar_def toUpperCase_def upperChar_def stringIncludes_def
  capitalLetters_def smallLetters_def sublist_code templateString_def truthy_def
lemmas matchDefs = isValidCard_def hasFields_def fiveFields_def termMatches_def
  caseInsensitiveSubstring_def specIncludeKeeps_def specExcludeDrops_def cardMatchesTerm_def matchesSearch_def
  lowerIncludes_def orElse_def notE_def includeFilter_def excludeFilter_def
lemmas sortDefs = sortCards_def compareCards_def rankDiff_def jsSub_def orNum_def localeCompareE_def
  notAfter_def RARITY_ORDER_def CONDITION_ORDER_def
lemmas collationDefs = localeCompare_def collationKey_def caseWeight_def caseInsensitiveCompare_def
lemmas rankDefs = knownRanks_def rarityRank_def conditionRank_def sortOrder_def
lemmas dupDefs = duplicatesFilter_def findDuplicates_def countCard_def setHas_def imageKeyCount_def

lemmas descDefs = buildCardDescription_def groupCard_def inheritedKey_def objectEntries_def
  isArrayIndex_def stringToNat_def digitValue_def orEmpty_def bullet_def emDash_def newline_def
  cardLine_def raritySection_def isSpace_def trim_def limitDescription_def noEmojis_def
  starEmojis_def Let_def natToString.simps


lemma localeCompare_consistent: "consistentCollation localeCompare"
proof -
  have r: "localeCompare x x = 0" for x
    by (simp add: localeCompare_def)
  have a: "(localeCompare x y < 0) = (0 < localeCompare y x)" for x y
    by (auto simp add: localeCompare_def)
  have le: "(localeCompare x y \<le> 0) = (collationKey x \<le> collationKey y)" for x y
    by (auto simp add: localeCompare_def)
  have lt: "(localeCompare x y < 0) = (collationKey x < collationKey y)" for x y
    by (auto simp add: localeCompare_def)
  have t1: "localeCompare x y \<le> 0 \<and> localeCompare y z \<le> 0 \<longrightarrow> localeCompare x z \<le> 0" for x y z
    unfolding le by (blast intro: order_trans)
  have t2: "localeCompare x y \<le> 0 \<and> localeCompare y z < 0 \<longrightarrow> localeCompare x z < 0" for x y z
    unfolding le lt by (blast intro: le_less_trans)
  have t3: "localeCompare x y < 0 \<and> localeCompare y z \<le> 0 \<longrightarrow> localeCompare x z < 0" for x y z
    unfolding le lt by (blast intro: less_le_trans)
  show ?thesis
    unfolding consistentCollation_def using r a t1 t2 t3 by blast
qed

subsection \<open>The filters on cards that carry a code\<close>

text \<open>
  On validated cards that carry a code, and with terms that are lower case as
  \<open>parseArguments\<close> leaves them, the two filters are the ones the specification
  describes: the match of the source is the substring match without regard to case.
\<close>

lemma specExcludeDrops_folded:
  assumes "list_all (\<lambda>t. toLowerCase t = t) terms"
  shows "specExcludeDrops terms c = list_ex (termMatches c) terms"
proof -
  have "list_ex (\<lambda>field. caseInsensitiveSubstring t field) (fiveFields c) = termMatches c t"
    if "t \<in> set terms" for t
  proof -
    from assms that have "toLowerCase t = t" by (simp add: list_all_iff)
    then show ?thesis
      by (simp add: termMatches_def folded_term_match)
  qed
  then show ?thesis
    by (simp add: specExcludeDrops_def list_ex_iff)
qed

lemma includeFilter_folded:
  assumes "list_all hasFields cards" "list_all (\<lambda>t. toLowerCase t = t) terms"
  shows "includeFilter terms cards = Inr (filter (specIncludeKeeps terms) cards)"
proof -
  have "specIncludeKeeps terms = (\<lambda>c. list_all (termMatches c) terms)"
    by (rule ext) (rule specIncludeKeeps_folded[OF assms(2)])
  with includeFilter_pure[OF assms(1), of terms] show ?thesis by simp
qed

lemma excludeFilter_folded:
  assumes "list_all hasFields cards" "list_all (\<lambda>t. toLowerCase t = t) terms"
  shows "excludeFilter terms cards = Inr (filter (\<lambda>c. \<not> specExcludeDrops terms c) cards)"
proof -
  have "(\<lambda>c. \<not> specExcludeDrops terms c) = (\<lambda>c. \<not> list_ex (termMatches c) terms)"
    by (rule ext) (simp add: specExcludeDrops_folded[OF assms(2)])
  with excludeFilter_pure[OF assms(1), of terms] show ?thesis by simp
qed

subsection \<open>The include filter and a card without a code\<close>

text \<open>
  C3. Include filtering keeps an item if and only if every expanded include term is a
  case-insensitive substring of its name, group, rarity, condition or code; an empty
  term list keeps every item.

  Validation lets a card without a code through. For such a card the term \<open>zzz\<close> is a
  substring of none of its fields, so the card is to be dropped and the filter is to
  return the other cards; \<open>cardMatchesTerm\<close> reads the code after the four other fields
  have not matched, and the filter throws instead. The card \<open>abcCard\<close> beside it, which
  the term \<open>abc\<close> keeps, is lost with it.
\<close>

theorem includeFilter_missing_code_raises:
  "isValidCard noCodeCard
   \<and> \<not> specIncludeKeeps [''zzz''] noCodeCard
   \<and> includeFilter [''zzz''] (filter isValidCard [noCodeCard]) = Inl TypeError
   \<and> specIncludeKeeps [''abc''] abcCard
   \<and> \<not> specIncludeKeeps [''abc''] noCodeCard
   \<and> includeFilter [''abc''] (filter isValidCard [abcCard, noCodeCard]) = Inl TypeError"
  by (simp add: cardDefs stringDefs matchDefs)

subsection \<open>The exclude filter and a card without a code\<close>

text \<open>
  C4. Exclude filtering drops an item if and only if some expanded exclude term matches
  one of the same five fields; an empty exclude list drops nothing; exclusion comes
  after inclusion, so an item that matches an include term and an exclude term is not
  in the result.

  The exclude term \<open>zzz\<close> matches no field of the validated card without a code, so the
  card is to stay; \<open>matchesSearch\<close> reads the missing code and the filter throws. In
  \<open>processCards\<close> the card passes the include term \<open>nova\<close> by its name, and the exclude
  filter that follows throws, whatever the engine's sort is.
\<close>

theorem excludeFilter_missing_code_raises:
  "isValidCard noCodeCard
   \<and> \<not> specExcludeDrops [''zzz''] noCodeCard
   \<and> excludeFilter [''zzz''] (filter isValidCard [noCodeCard]) = Inl TypeError
   \<and> specIncludeKeeps [''nova''] noCodeCard
   \<and> includeFilter [''nova''] (filter isValidCard [noCodeCard]) = Inr [noCodeCard]
   \<and> processCards arraySort noAliases lc [noCodeCard] (query [''nova''] [''zzz''] False)
       = Inl TypeError"
  by (simp add: processCards_def cardDefs stringDefs matchDefs)

subsection \<open>The duplicates filter\<close>

text \<open>
  On cards that carry an image URL the filter keeps the cards whose image URL occurs at
  least twice in the list it is given (\<open>duplicatesFilter_pure\<close>), and \<open>processCards\<close>
  gives it the list that validation and the two term filters have left.

  C5. With the duplicates flag set, an item is returned if and only if its image key
  occurs at least twice among the items that passed the include and exclude filters:
  an item whose image key is unique there is never returned, an item that shares it
  with another one always is.

  \<open>findDuplicates\<close> counts a card under the printed image URL, which for a card
  without one is the word \<open>undefined\<close>, and \<open>duplicatesFilter\<close> looks the image URL
  itself up. So a card whose image URL is the string \<open>undefined\<close> is returned although
  no other card has that URL, when a card without an image URL stands beside it; and
  two cards that both lack the image URL are counted as a pair and neither is
  returned. The sort that follows in \<open>processCards\<close> is given one card, or none.
\<close>

theorem duplicatesFilter_missing_image_key:
  "list_all isValidCard [undefinedUrlCard, noImageCard, noImageTwin]
   \<and> imageKeyCount [undefinedUrlCard, noImageCard] undefinedUrlCard = 1
   \<and> duplicatesFilter True [undefinedUrlCard, noImageCard] = [undefinedUrlCard]
   \<and> processCards insertionSort noAliases localeCompare [undefinedUrlCard, noImageCard]
        (query [] [] True) = Inr [undefinedUrlCard]
   \<and> imageKeyCount [noImageCard, noImageTwin] noImageCard = 2
   \<and> findDuplicates [noImageCard, noImageTwin] = [''undefined'']
   \<and> duplicatesFilter True [noImageCard, noImageTwin] = []
   \<and> processCards insertionSort noAliases localeCompare [noImageCard, noImageTwin]
        (query [] [] True) = Inr []"
proof -
  have a: "list_all isValidCard [undefinedUrlCard, noImageCard, noImageTwin]"
    by (simp add: cardDefs stringDefs matchDefs)
  have b: "imageKeyCount [undefinedUrlCard, noImageCard] undefinedUrlCard = 1"
    "imageKeyCount [noImageCard, noImageTwin] noImageCard = 2"
    by (simp_all add: cardDefs dupDefs)
  have c: "findDuplicates [noImageCard, noImageTwin] = [''undefined'']"
    by (simp add: cardDefs stringDefs dupDefs)
  have d: "duplicatesFilter True [undefinedUrlCard, noImageCard] = [undefinedUrlCard]"
    "duplicatesFilter True [noImageCard, noImageTwin] = []"
    by (simp_all add: cardDefs stringDefs dupDefs)
  have e: "processCards insertionSort noAliases localeCompare [undefinedUrlCard, noImageCard]
        (query [] [] True) = Inr [undefinedUrlCard]"
    by (simp add: processCards_def cardDefs stringDefs matchDefs sortDefs dupDefs)
  have f: "processCards insertionSort noAliases localeCompare [noImageCard, noImageTwin]
        (query [] [] True) = Inr []"
    by (simp add: processCards_def cardDefs stringDefs matchDefs sortDefs dupDefs)
  from a b c d e f show ?thesis by blast
qed

subsection \<open>The sort order\<close>

text \<open>
  C6. Sorting orders items by rarity rank descending, then condition rank ascending,
  then group name ascending, then item name ascending, both without regard to case; a
  mythic, pristine item comes before a standard, good one when no filter is applied.

  As the source has it: let the engine's sort meet the contract of the language and
  let \<open>localeCompare\<close> be a consistent collation. For validated items whose rarity and
  condition are in the rank tables, the comparator is consistent and the result is a
  rearrangement of the input that is sorted by rarity rank descending, then condition
  rank ascending, then group and then name in the order of \<open>localeCompare\<close>. That
  collation tells \<open>a\<close> from \<open>A\<close>, so two groups that differ in case only are not tied
  and the name does not decide between them. The mythic, pristine item of Scenario A
  comes first.
\<close>

theorem sortCards_order:
  "conformingSort arraySort \<and> consistentCollation lc \<longrightarrow>
     (list_all knownRanks cards \<longrightarrow>
        (\<exists>res. sortCards arraySort lc cards = Inr res \<and> mset res = mset cards
           \<and> sorted_wrt (sortOrder lc) res))
     \<and> sortCards arraySort lc [scenarioX, scenarioY] = Inr [scenarioX, scenarioY]
     \<and> sortCards arraySort lc [scenarioY, scenarioX] = Inr [scenarioX, scenarioY]
     \<and> processCards arraySort noAliases lc [scenarioY, scenarioX] (query [] [] False)
         = Inr [scenarioX, scenarioY]"
proof (intro impI)
  assume h: "conformingSort arraySort \<and> consistentCollation lc"
  then have cs: "conformingSort arraySort" and cc: "consistentCollation lc"
    by simp_all
  have ins: "sortCards arraySort lc cs = insertionSort (compareCards lc) cs"
    if "list_all knownRanks cs" for cs
    using cs compareCards_consistent[OF cc that]
    unfolding sortCards_def conformingSort_def by blast
  have a: "\<exists>res. sortCards arraySort lc cards = Inr res \<and> mset res = mset cards
           \<and> sorted_wrt (sortOrder lc) res"
    if k: "list_all knownRanks cards"
    unfolding ins[OF k]
  proof (rule insertionSort_sorted)
    show "\<forall>x\<in>set cards. \<forall>y\<in>set cards.
            \<exists>v. compareCards lc x y = Inr v \<and> notAfter v = sortOrder lc x y"
      using k by (simp add: list_all_iff compareCards_known)
    show "\<forall>x\<in>set cards. \<forall>y\<in>set cards. sortOrder lc x y \<or> sortOrder lc y x"
      using sortOrder_total[OF cc] by blast
    show "\<forall>x\<in>set cards. \<forall>y\<in>set cards. \<forall>z\<in>set cards.
            sortOrder lc x y \<longrightarrow> sortOrder lc y z \<longrightarrow> sortOrder lc x z"
      using sortOrder_trans[OF cc] by blast
  qed
  have k2: "list_all knownRanks [scenarioX, scenarioY]" "list_all knownRanks [scenarioY, scenarioX]"
    by (simp_all add: cardDefs stringDefs rankDefs sortDefs matchDefs)
  have b: "sortCards arraySort lc [scenarioX, scenarioY] = Inr [scenarioX, scenarioY]"
    unfolding ins[OF k2(1)] by (simp add: cardDefs stringDefs sortDefs)
  have c: "sortCards arraySort lc [scenarioY, scenarioX] = Inr [scenarioX, scenarioY]"
    unfolding ins[OF k2(2)] by (simp add: cardDefs stringDefs sortDefs)
  have "processCards arraySort noAliases lc [scenarioY, scenarioX] (query [] [] False)
      = sortCards arraySort lc [scenarioY, scenarioX]"
    by (simp add: processCards_def cardDefs stringDefs matchDefs dupDefs)
  with c have d: "processCards arraySort noAliases lc [scenarioY, scenarioX] (query [] [] False)
      = Inr [scenarioX, scenarioY]"
    by simp
  from a b c d show "(list_all knownRanks cards \<longrightarrow>
        (\<exists>res. sortCards arraySort lc cards = Inr res \<and> mset res = mset cards
           \<and> sorted_wrt (sortOrder lc) res))
     \<and> sortCards arraySort lc [scenarioX, scenarioY] = Inr [scenarioX, scenarioY]
     \<and> sortCards arraySort lc [scenarioY, scenarioX] = Inr [scenarioX, scenarioY]
     \<and> processCards arraySort noAliases lc [scenarioY, scenarioX] (query [] [] False)
         = Inr [scenarioX, scenarioY]"
    by blast
qed

theorem sortCards_order_witness:
  "conformingSort (insertionSort :: card arraySort)
   \<and> consistentCollation localeCompare
   \<and> list_all knownRanks [upperGroupCard, noCodeCard, scenarioY, lowerGroupCard, scenarioX]
   \<and> (\<exists>res. sortCards insertionSort localeCompare
                [upperGroupCard, noCodeCard, scenarioY, lowerGroupCard, scenarioX] = Inr res
         \<and> mset res = mset [upperGroupCard, noCodeCard, scenarioY, lowerGroupCard, scenarioX]
         \<and> sorted_wrt (sortOrder localeCompare) res)
   \<and> sortCards insertionSort localeCompare
        [upperGroupCard, noCodeCard, scenarioY, lowerGroupCard, scenarioX]
        = Inr [scenarioX, lowerGroupCard, upperGroupCard, noCodeCard, scenarioY]"
proof -
  have h: "list_all knownRanks [upperGroupCard, noCodeCard, scenarioY, lowerGroupCard, scenarioX]"
    by (simp add: cardDefs stringDefs rankDefs sortDefs matchDefs)
  have r: "sortCards insertionSort localeCompare
        [upperGroupCard, noCodeCard, scenarioY, lowerGroupCard, scenarioX]
        = Inr [scenarioX, lowerGroupCard, upperGroupCard, noCodeCard, scenarioY]"
    by (simp add: cardDefs stringDefs sortDefs collationDefs)
  have c: "conformingSort (insertionSort :: card arraySort)"
    by (rule conformingSort_insertionSort)
  from sortCards_order[where arraySort = insertionSort and lc = localeCompare
      and cards = "[upperGroupCard, noCodeCard, scenarioY, lowerGroupCard, scenarioX]"]
    c localeCompare_consistent h
  have "\<exists>res. sortCards insertionSort localeCompare
                [upperGroupCard, noCodeCard, scenarioY, lowerGroupCard, scenarioX] = Inr res
         \<and> mset res = mset [upperGroupCard, noCodeCard, scenarioY, lowerGroupCard, scenarioX]
         \<and> sorted_wrt (sortOrder localeCompare) res"
    by blast
  with c localeCompare_consistent h r show ?thesis by blast
qed

theorem sortCards_case_counterexample:
  "list_all knownRanks [upperGroupCard, lowerGroupCard]
   \<and> sortCards insertionSort localeCompare [upperGroupCard, lowerGroupCard]
        = Inr [lowerGroupCard, upperGroupCard]
   \<and> sortCards insertionSort localeCompare [lowerGroupCard, upperGroupCard]
        = Inr [lowerGroupCard, upperGroupCard]
   \<and> \<not> sorted_wrt (sortOrder caseInsensitiveCompare) [lowerGroupCard, upperGroupCard]"
proof -
  have a: "list_all knownRanks [upperGroupCard, lowerGroupCard]"
    by (simp add: cardDefs stringDefs rankDefs sortDefs matchDefs)
  have b: "sortCards insertionSort localeCompare [upperGroupCard, lowerGroupCard]
        = Inr [lowerGroupCard, upperGroupCard]"
    by (simp add: cardDefs stringDefs sortDefs collationDefs)
  have c: "sortCards insertionSort localeCompare [lowerGroupCard, upperGroupCard]
        = Inr [lowerGroupCard, upperGroupCard]"
    by (simp add: cardDefs stringDefs sortDefs collationDefs)
  have d: "\<not> sorted_wrt (sortOrder caseInsensitiveCompare) [lowerGroupCard, upperGroupCard]"
    by (simp add: cardDefs stringDefs rankDefs sortDefs collationDefs)
  from a b c d show ?thesis by blast
qed

subsection \<open>A card without a code\<close>

text \<open>
  C7. The query pipeline raises no error on any list of record objects, also when
  fields beyond name, group, rarity and condition (such as the code) are missing.
  \<open>isValidCard\<close> does not look at the code, and \<open>cardMatchesTerm\<close> and
  \<open>matchesSearch\<close> read it: a validated card without a code makes \<open>processCards\<close>
  raise a \<open>TypeError\<close> as soon as a term matches none of its other four fields.
\<close>

theorem processCards_missing_code_raises:
  "isValidCard noCodeCard
   \<and> processCards arraySort noAliases localeCompare [noCodeCard] (query [''zzz''] [] False)
       = Inl TypeError
   \<and> processCards arraySort noAliases localeCompare [noCodeCard] (query [] [''zzz''] False)
       = Inl TypeError"
  by (simp add: processCards_def cardDefs stringDefs matchDefs dupDefs)

subsection \<open>Validation and unknown rarities\<close>

text \<open>
  C8. Validation rejects every item whose rarity is outside the closed rarity set, so
  that no unknown rarity reaches the sort step or is ranked, and a malformed rarity or
  condition never propagates as a crash.

  As the source has it: \<open>isValidCard\<close> asks only that name, group, rarity and condition
  are present and not empty. An item with any other non-empty rarity string passes,
  reaches the sort step and, when no filter applies, is returned with the other
  validated items. On validated items the sort step raises no exception and returns a
  rearrangement of them, whatever their rarity and condition strings are.
\<close>

theorem validation_checks_presence_only:
  "isValidCard c =
     (\<exists>n g r d. name c = Some n \<and> n \<noteq> [] \<and> group c = Some g \<and> g \<noteq> []
        \<and> rarity c = Some r \<and> r \<noteq> [] \<and> condition c = Some d \<and> d \<noteq> [])
   \<and> (conformingSort arraySort \<and> list_all isValidCard cards \<longrightarrow>
        (\<exists>res. sortCards arraySort lc cards = Inr res \<and> mset res = mset cards))
   \<and> (conformingSort arraySort \<and> expandAll (searchTerms opts) = []
        \<and> expandAll (excludeTerms opts) = [] \<and> \<not> showDuplicates opts \<longrightarrow>
        (\<exists>res. processCards arraySort expandAll lc cards opts = Inr res
           \<and> mset res = mset (filter isValidCard cards)))"
proof -
  have v: "isValidCard c =
     (\<exists>n g r d. name c = Some n \<and> n \<noteq> [] \<and> group c = Some g \<and> g \<noteq> []
        \<and> rarity c = Some r \<and> r \<noteq> [] \<and> condition c = Some d \<and> d \<noteq> [])"
    by (cases "name c"; cases "group c"; cases "rarity c"; cases "condition c")
       (simp_all add: isValidCard_def truthy_def)
  have s: "\<exists>res. sortCards arraySort lc cards = Inr res \<and> mset res = mset cards"
    if "conformingSort arraySort \<and> list_all isValidCard cards"
    using that sortCards_valid[of arraySort cards lc] by blast
  have u: "\<exists>res. processCards arraySort expandAll lc cards opts = Inr res
           \<and> mset res = mset (filter isValidCard cards)"
    if "conformingSort arraySort \<and> expandAll (searchTerms opts) = []
        \<and> expandAll (excludeTerms opts) = [] \<and> \<not> showDuplicates opts"
    using that processCards_unfiltered[of arraySort expandAll opts lc cards] by blast
  from v s u show ?thesis by blast
qed

theorem validation_checks_presence_only_witness:
  "conformingSort (insertionSort :: card arraySort)
   \<and> list_all isValidCard [scenarioY, legendaryCard, scenarioX]
   \<and> noAliases (searchTerms (query [] [] False)) = []
   \<and> noAliases (excludeTerms (query [] [] False)) = []
   \<and> \<not> showDuplicates (query [] [] False)
   \<and> (\<exists>res. sortCards insertionSort localeCompare [scenarioY, legendaryCard, scenarioX] = Inr res
        \<and> mset res = mset [scenarioY, legendaryCard, scenarioX])
   \<and> (\<exists>res. processCards insertionSort noAliases localeCompare
               [scenarioY, legendaryCard, noCodeCard, scenarioX] (query [] [] False) = Inr res
        \<and> mset res = mset (filter isValidCard [scenarioY, legendaryCard, noCodeCard, scenarioX]))"
proof -
  have c: "conformingSort (insertionSort :: card arraySort)"
    by (rule conformingSort_insertionSort)
  have h: "list_all isValidCard [scenarioY, legendaryCard, scenarioX]"
    by (simp add: cardDefs matchDefs stringDefs)
  have q: "noAliases (searchTerms (query [] [] False)) = []"
    "noAliases (excludeTerms (query [] [] False)) = []"
    "\<not> showDuplicates (query [] [] False)"
    by (simp_all add: cardDefs)
  from validation_checks_presence_only[where arraySort = insertionSort and lc = localeCompare
      and cards = "[scenarioY, legendaryCard, scenarioX]"] c h
  have a: "\<exists>res. sortCards insertionSort localeCompare [scenarioY, legendaryCard, scenarioX] = Inr res
        \<and> mset res = mset [scenarioY, legendaryCard, scenarioX]"
    by blast
  from validation_checks_presence_only[where arraySort = insertionSort and lc = localeCompare
      and cards = "[scenarioY, legendaryCard, noCodeCard, scenarioX]" and expandAll = noAliases
      and opts = "query [] [] False"] c q
  have b: "\<exists>res. processCards insertionSort noAliases localeCompare
               [scenarioY, legendaryCard, noCodeCard, scenarioX] (query [] [] False) = Inr res
        \<and> mset res = mset (filter isValidCard [scenarioY, legendaryCard, noCodeCard, scenarioX])"
    by blast
  from c h q a b show ?thesis by blast
qed

text \<open>
  The card of rarity \<open>legendary\<close> is valid and comes out of \<open>processCards\<close>. So does the
  card of rarity \<open>Constructor\<close>, and the page description of that card throws: its
  lower-cased rarity names a property that every object inherits.
\<close>

theorem validation_unknown_rarity_counterexample:
  "rarity legendaryCard = Some ''legendary''
   \<and> RARITY_ORDER (toLowerCase ''legendary'') = None
   \<and> isValidCard legendaryCard
   \<and> processCards insertionSort noAliases localeCompare [legendaryCard] (query [] [] False)
        = Inr [legendaryCard]
   \<and> rarity constructorCard = Some ''Constructor''
   \<and> RARITY_ORDER (toLowerCase ''Constructor'') = None
   \<and> isValidCard constructorCard
   \<and> processCards insertionSort noAliases localeCompare [constructorCard] (query [] [] False)
        = Inr [constructorCard]
   \<and> buildCardDescription noEmojis noEmojis [constructorCard] = Inl TypeError"
proof -
  have a: "rarity legendaryCard = Some ''legendary''" "rarity constructorCard = Some ''Constructor''"
    by (simp_all add: cardDefs)
  have b: "RARITY_ORDER (toLowerCase ''legendary'') = None"
    "RARITY_ORDER (toLowerCase ''Constructor'') = None"
    by (simp_all add: stringDefs sortDefs)
  have c: "isValidCard legendaryCard" "isValidCard constructorCard"
    by (simp_all add: cardDefs stringDefs matchDefs)
  have d: "processCards insertionSort noAliases localeCompare [legendaryCard] (query [] [] False)
        = Inr [legendaryCard]"
    by (simp add: processCards_def cardDefs stringDefs matchDefs sortDefs dupDefs)
  have e: "processCards insertionSort noAliases localeCompare [constructorCard] (query [] [] False)
        = Inr [constructorCard]"
    by (simp add: processCards_def cardDefs stringDefs matchDefs sortDefs dupDefs)
  have f: "buildCardDescription noEmojis noEmojis [constructorCard] = Inl TypeError"
    by (simp add: descDefs cardDefs stringDefs)
  from a b c d e f show ?thesis by blast
qed

subsection \<open>Grouping and assembling a page\<close>

lemma limitDescription_length: "length (limitDescription d) \<le> 4096"
  by (simp add: limitDescription_def newline_def)

lemma limitDescription_long:
  "4096 < length d \<Longrightarrow> length (limitDescription d) = 4094"
  by (simp add: limitDescription_def newline_def)

lemma set_update_subset: "set (AList.update k v al) \<subseteq> insert (k, v) (set al)"
  by (induction al) auto

lemma groupCard_members:
  assumes "groupCard c grouped = Inr grouped'"
  shows "\<Union> (set ` snd ` set grouped') \<subseteq> insert c (\<Union> (set ` snd ` set grouped))"
proof -
  from assms obtain r where r: "rarity c = Some r"
    by (auto simp add: groupCard_def split: option.splits)
  show ?thesis
  proof (cases "map_of grouped (toLowerCase r)")
    case None
    with assms r have "grouped' = grouped @ [(toLowerCase r, [c])]"
      by (simp add: groupCard_def Let_def split: if_splits)
    then show ?thesis by auto
  next
    case (Some members)
    with assms r have g: "grouped' = AList.update (toLowerCase r) (members @ [c]) grouped"
      by (simp add: groupCard_def Let_def)
    from Some have m: "(toLowerCase r, members) \<in> set grouped"
      by (rule map_of_SomeD)
    have "set grouped' \<subseteq> insert (toLowerCase r, members @ [c]) (set grouped)"
      unfolding g by (rule set_update_subset)
    then have "\<Union> (set ` snd ` set grouped')
        \<subseteq> \<Union> (set ` snd ` insert (toLowerCase r, members @ [c]) (set grouped))"
      by blast
    also have "\<dots> \<subseteq> insert c (\<Union> (set ` snd ` set grouped))"
      using m by force
    finally show ?thesis .
  qed
qed

lemma groupCard_total:
  assumes "rarity c = Some r" "\<not> inheritedKey (toLowerCase r)"
  shows "\<exists>grouped'. groupCard c grouped = Inr grouped'"
  using assms by (simp add: groupCard_def Let_def split: option.splits)

lemma groupCards_total:
  assumes "list_all (\<lambda>c. \<exists>r. rarity c = Some r \<and> \<not> inheritedKey (toLowerCase r)) cards"
  shows "\<exists>grouped'. groupCards cards grouped = Inr grouped'
           \<and> \<Union> (set ` snd ` set grouped') \<subseteq> set cards \<union> \<Union> (set ` snd ` set grouped)"
  using assms
proof (induction cards arbitrary: grouped)
  case Nil
  then show ?case by simp
next
  case (Cons c cards)
  from Cons.prems obtain r where r: "rarity c = Some r" "\<not> inheritedKey (toLowerCase r)"
    by auto
  from groupCard_total[OF r] obtain g1 where g1: "groupCard c grouped = Inr g1"
    by blast
  from groupCard_members[OF g1] have m1: "\<Union> (set ` snd ` set g1) \<subseteq> insert c (\<Union> (set ` snd ` set grouped))" .
  from Cons.prems have "list_all (\<lambda>c. \<exists>r. rarity c = Some r \<and> \<not> inheritedKey (toLowerCase r)) cards"
    by simp
  from Cons.IH[OF this, of g1] obtain g2 where
    g2: "groupCards cards g1 = Inr g2" "\<Union> (set ` snd ` set g2) \<subseteq> set cards \<union> \<Union> (set ` snd ` set g1)"
    by blast
  from g2(2) m1 have "\<Union> (set ` snd ` set g2) \<subseteq> set (c # cards) \<union> \<Union> (set ` snd ` set grouped)"
    by auto
  with g1 g2(1) show ?case by simp
qed

lemma set_objectEntries: "set (objectEntries obj) = set obj"
  by (auto simp add: objectEntries_def)

lemma cardLines_total:
  assumes "list_all (\<lambda>c. condition c \<noteq> None) cs"
  shows "\<exists>d'. cardLines CE cs d = Inr d'"
  using assms
proof (induction cs arbitrary: d)
  case Nil
  then show ?case by simp
next
  case (Cons c cs)
  from Cons.prems obtain k where "condition c = Some k" by auto
  then obtain line where l: "cardLine CE c = Inr line"
    by (simp add: cardLine_def Let_def)
  from Cons.prems have "list_all (\<lambda>c. condition c \<noteq> None) cs" by simp
  from Cons.IH[OF this, of "d @ line"] l show ?case by simp
qed

lemma raritySections_total:
  assumes "\<forall>e\<in>set entries. list_all (\<lambda>c. condition c \<noteq> None) (snd e)"
  shows "\<exists>d'. raritySections RE CE entries d = Inr d'"
  using assms
proof (induction entries arbitrary: d)
  case Nil
  then show ?case by simp
next
  case (Cons e entries)
  obtain k members where e: "e = (k, members)" by (cases e)
  from Cons.prems have "list_all (\<lambda>c. condition c \<noteq> None) members"
    by (simp add: e)
  from cardLines_total[OF this] have "\<exists>d1. raritySection RE CE e d = Inr d1"
  proof -
    define header where "header = ''### '' @ orEmpty (RE k) @ '' '' @ toUpperCase k @ '' (''
       @ natToString (length members) @ '' card''
       @ (if length members > 1 then ''s'' else []) @ '')'' @ newline"
    from cardLines_total[OF \<open>list_all (\<lambda>c. condition c \<noteq> None) members\<close>, of CE "d @ header"]
    obtain d' where "cardLines CE members (d @ header) = Inr d'"
      by blast
    then show ?thesis
      by (simp add: raritySection_def e Let_def header_def)
  qed
  then obtain d1 where "raritySection RE CE e d = Inr d1"
    by blast
  moreover from Cons.prems have "\<forall>e\<in>set entries. list_all (\<lambda>c. condition c \<noteq> None) (snd e)"
    by simp
  from Cons.IH[OF this, of d1] obtain d2 where "raritySections RE CE entries d1 = Inr d2"
    by blast
  ultimately show ?case by simp
qed

lemma buildCardDescription_total:
  assumes "list_all (\<lambda>c. isValidCard c \<and> \<not> inheritedKey (toLowerCase (templateString (rarity c)))) cards"
  shows "\<exists>d. buildCardDescription RE CE cards = Inr d"
proof (cases "cards = []")
  case True
  then show ?thesis by (simp add: buildCardDescription_def)
next
  case False
  have "list_all (\<lambda>c. \<exists>r. rarity c = Some r \<and> \<not> inheritedKey (toLowerCase r)) cards"
    unfolding list_all_iff
  proof
    fix c assume "c \<in> set cards"
    with assms have v: "isValidCard c" and n: "\<not> inheritedKey (toLowerCase (templateString (rarity c)))"
      by (simp_all add: list_all_iff)
    from v obtain r where "rarity c = Some r"
      by (auto simp add: isValidCard_def dest!: truthy_Some)
    with n show "\<exists>r. rarity c = Some r \<and> \<not> inheritedKey (toLowerCase r)"
      by (simp add: templateString_def)
  qed
  from groupCards_total[OF this, of "[]"] obtain grouped where
    g: "groupCards cards [] = Inr grouped" "\<Union> (set ` snd ` set grouped) \<subseteq> set cards"
    by auto
  have "\<forall>e\<in>set (objectEntries grouped). list_all (\<lambda>c. condition c \<noteq> None) (snd e)"
  proof
    fix e assume "e \<in> set (objectEntries grouped)"
    then have "e \<in> set grouped" by (simp add: set_objectEntries)
    with g(2) have "set (snd e) \<subseteq> set cards" by blast
    moreover have "condition c \<noteq> None" if "c \<in> set cards" for c
    proof -
      from assms that have "isValidCard c" by (simp add: list_all_iff)
      then show ?thesis
        by (auto simp add: isValidCard_def dest!: truthy_Some)
    qed
    ultimately show "list_all (\<lambda>c. condition c \<noteq> None) (snd e)"
      by (auto simp add: list_all_iff)
  qed
  from raritySections_total[OF this, of RE CE "[]"] obtain assembled where
    "raritySections RE CE (objectEntries grouped) [] = Inr assembled"
    by blast
  with False g(1) show ?thesis
    by (simp add: buildCardDescription_def)
qed

subsection \<open>The page description\<close>

text \<open>
  C10. For every list of cards the description that \<open>buildCardDescription\<close> produces is
  at most 4096 code units long: an assembled text longer than 4096 is cut to its first
  4090 code units, followed by a line break and three dots (4094 in all); an empty page
  gives a fixed placeholder that is not empty. A description is produced for every
  page of validated cards whose lower-cased rarity is not a name inherited from
  \<open>Object.prototype\<close>.
\<close>

theorem buildCardDescription_limit:
  "(buildCardDescription RE CE cards = Inr d \<longrightarrow> length d \<le> 4096)
   \<and> (list_all (\<lambda>c. isValidCard c \<and> \<not> inheritedKey (toLowerCase (templateString (rarity c)))) cards
        \<longrightarrow> (\<exists>d. buildCardDescription RE CE cards = Inr d))
   \<and> (cards \<noteq> [] \<and> groupCards cards [] = Inr grouped
        \<and> raritySections RE CE (objectEntries grouped) [] = Inr assembled \<longrightarrow>
        buildCardDescription RE CE cards
          = Inr (if 4096 < length (trim assembled)
                 then take 4090 (trim assembled) @ newline @ ''...''
                 else trim assembled))
   \<and> (4096 < length assembled \<longrightarrow> length (take 4090 assembled @ newline @ ''...'') = 4094)
   \<and> buildCardDescription RE CE [] = Inr ''No cards found for this page.''"
proof -
  have a: "length d \<le> 4096" if "buildCardDescription RE CE cards = Inr d"
  proof (cases "cards = []")
    case True
    with that show ?thesis by (auto simp add: buildCardDescription_def)
  next
    case False
    with that obtain t where "d = limitDescription t"
      by (auto simp add: buildCardDescription_def split: sum.splits)
    then show ?thesis by (simp add: limitDescription_length)
  qed
  have b: "\<exists>d. buildCardDescription RE CE cards = Inr d"
    if "list_all (\<lambda>c. isValidCard c \<and> \<not> inheritedKey (toLowerCase (templateString (rarity c)))) cards"
    using that by (rule buildCardDescription_total)
  have c: "buildCardDescription RE CE cards
          = Inr (if 4096 < length (trim assembled)
                 then take 4090 (trim assembled) @ newline @ ''...''
                 else trim assembled)"
    if "cards \<noteq> []" "groupCards cards [] = Inr grouped"
      "raritySections RE CE (objectEntries grouped) [] = Inr assembled"
    using that by (simp add: buildCardDescription_def limitDescription_def)
  have e: "length (take 4090 assembled @ newline @ ''...'') = 4094" if "4096 < length assembled"
    using that by (simp add: newline_def)
  have f: "buildCardDescription RE CE [] = Inr ''No cards found for this page.''"
    by (simp add: buildCardDescription_def)
  from a b c e f show ?thesis by blast
qed

theorem buildCardDescription_limit_witness:
  "list_all (\<lambda>c. isValidCard c \<and> \<not> inheritedKey (toLowerCase (templateString (rarity c))))
     [scenarioY, scenarioX, lowerGroupCard]
   \<and> buildCardDescription starEmojis starEmojis [scenarioY, scenarioX, lowerGroupCard]
      = Inr (''###  STANDARD (1 card)'' @ newline
           @ ''[] **B** '' @ bullet @ '' Y'' @ emDash @ ''`Y1`'' @ newline @ newline
           @ ''### * MYTHIC (2 cards)'' @ newline
           @ ''[*] **A** '' @ bullet @ '' X'' @ emDash @ ''`X1`'' @ newline
           @ ''[] **a** '' @ bullet @ '' Z'' @ emDash @ ''`L1`'')
   \<and> length (''###  STANDARD (1 card)'' @ newline
           @ ''[] **B** '' @ bullet @ '' Y'' @ emDash @ ''`Y1`'' @ newline @ newline
           @ ''### * MYTHIC (2 cards)'' @ newline
           @ ''[*] **A** '' @ bullet @ '' X'' @ emDash @ ''`X1`'' @ newline
           @ ''[] **a** '' @ bullet @ '' Z'' @ emDash @ ''`L1`'') \<le> 4096"
proof -
  have h: "list_all (\<lambda>c. isValidCard c \<and> \<not> inheritedKey (toLowerCase (templateString (rarity c))))
     [scenarioY, scenarioX, lowerGroupCard]"
    by (simp add: cardDefs stringDefs matchDefs inheritedKey_def)
  have v: "buildCardDescription starEmojis starEmojis [scenarioY, scenarioX, lowerGroupCard]
      = Inr (''###  STANDARD (1 card)'' @ newline
           @ ''[] **B** '' @ bullet @ '' Y'' @ emDash @ ''`Y1`'' @ newline @ newline
           @ ''### * MYTHIC (2 cards)'' @ newline
           @ ''[*] **A** '' @ bullet @ '' X'' @ emDash @ ''`X1`'' @ newline
           @ ''[] **a** '' @ bullet @ '' Z'' @ emDash @ ''`L1`'')"
    by (simp add: descDefs cardDefs stringDefs)
  from buildCardDescription_limit[where RE = starEmojis and CE = starEmojis
      and cards = "[scenarioY, scenarioX, lowerGroupCard]"
      and d = "''###  STANDARD (1 card)'' @ newline
           @ ''[] **B** '' @ bullet @ '' Y'' @ emDash @ ''`Y1`'' @ newline @ newline
           @ ''### * MYTHIC (2 cards)'' @ newline
           @ ''[*] **A** '' @ bullet @ '' X'' @ emDash @ ''`X1`'' @ newline
           @ ''[] **a** '' @ bullet @ '' Z'' @ emDash @ ''`L1`''"] v
  have "length (''###  STANDARD (1 card)'' @ newline
           @ ''[] **B** '' @ bullet @ '' Y'' @ emDash @ ''`Y1`'' @ newline @ newline
           @ ''### * MYTHIC (2 cards)'' @ newline
           @ ''[*] **A** '' @ bullet @ '' X'' @ emDash @ ''`X1`'' @ newline
           @ ''[] **a** '' @ bullet @ '' Z'' @ emDash @ ''`L1`'') \<le> 4096"
    by blast
  with h v show ?thesis by blast
qed

subsection \<open>The registry, the listeners and the timers agree\<close>

lemma map_of_clearTimeout:
  "map_of (clearTimeout t ts) t' = (if t' = t then None else map_of ts t')"
  by (induction ts) (auto simp add: clearTimeout_def)

lemma set_clearTimeout: "set (clearTimeout t ts) = {p \<in> set ts. fst p \<noteq> t}"
  by (auto simp add: clearTimeout_def)

lemma distinct_clearTimeout: "distinct (map fst ts) \<Longrightarrow> distinct (map fst (clearTimeout t ts))"
  by (simp add: clearTimeout_def distinct_map_filter)

lemma dropFirstWith_subset: "set (dropFirstWith p xs) \<subseteq> set xs"
  by (induction xs) auto

lemma dropFirstWith_filter:
  "distinct (map f xs) \<Longrightarrow> dropFirstWith (\<lambda>x. f x = k) xs = filter (\<lambda>x. f x \<noteq> k) xs"
proof (induction xs)
  case Nil
  then show ?case by simp
next
  case (Cons x xs)
  show ?case
  proof (cases "f x = k")
    case True
    from Cons.prems have "f x \<notin> f ` set xs" by simp
    with True have "\<forall>y\<in>set xs. f y \<noteq> k" by blast
    then have "filter (\<lambda>x. f x \<noteq> k) xs = xs" by (simp add: filter_id_conv)
    with True show ?thesis by simp
  next
    case False
    with Cons show ?thesis by simp
  qed
qed

lemma removeListener_subset: "set (removeListener h ls) \<subseteq> set ls"
  using dropFirstWith_subset[of "\<lambda>l. hid l = h" "rev ls"] by (simp add: removeListener_def)

lemma removeListener_filter:
  assumes "distinct (map hid ls)"
  shows "removeListener h ls = filter (\<lambda>l. hid l \<noteq> h) ls"
proof -
  from assms have "distinct (map hid (rev ls))"
    by (simp add: rev_map[symmetric])
  then have "dropFirstWith (\<lambda>l. hid l = h) (rev ls) = filter (\<lambda>l. hid l \<noteq> h) (rev ls)"
    by (rule dropFirstWith_filter)
  then show ?thesis
    by (simp add: removeListener_def rev_filter)
qed

lemma set_removeListener:
  "distinct (map hid ls) \<Longrightarrow> set (removeListener h ls) = {l \<in> set ls. hid l \<noteq> h}"
  by (auto simp add: removeListener_filter)

lemma distinct_removeListener: "distinct (map hid ls) \<Longrightarrow> distinct (map hid (removeListener h ls))"
  by (simp add: removeListener_filter distinct_map_filter)

lemma detachExisting_fields:
  "activeCollectors (detachExisting w m) = activeCollectors w"
  "now (detachExisting w m) = now w"
  "nextHandler (detachExisting w m) = nextHandler w"
  "nextTimer (detachExisting w m) = nextTimer w"
  "effects (detachExisting w m) = effects w"
  by (simp_all add: detachExisting_def split: option.splits)

lemma keptListeners_cases:
  "keptListeners w m =
     (case activeCollectors w m of
        None \<Rightarrow> listeners w
      | Some existing \<Rightarrow> removeListener (handler existing) (listeners w))"
  by (simp add: detachExisting_def split: option.splits)

lemma keptTimers_cases:
  "keptTimers w m =
     (case activeCollectors w m of
        None \<Rightarrow> timers w
      | Some existing \<Rightarrow> clearTimeout (timeout existing) (timers w))"
  by (simp add: detachExisting_def split: option.splits)

lemma setup_fields:
  "listeners (setupInteractionHandler w m a n)
     = keptListeners w m @ [\<lparr>hid = nextHandler w, hMessage = m, hAuthor = a, hTotalCards = n\<rparr>]"
  "timers (setupInteractionHandler w m a n)
     = keptTimers w m
       @ [(nextTimer w, \<lparr>due = now w + COLLECTOR_TIMEOUT, tMessage = m, tHandler = nextHandler w\<rparr>)]"
  "activeCollectors (setupInteractionHandler w m a n)
     = (activeCollectors w)(m \<mapsto> \<lparr>handler = nextHandler w, timeout = nextTimer w\<rparr>)"
  "nextHandler (setupInteractionHandler w m a n) = nextHandler w + 1"
  "nextTimer (setupInteractionHandler w m a n) = nextTimer w + 1"
  "now (setupInteractionHandler w m a n) = now w"
  "effects (setupInteractionHandler w m a n) = effects w"
  by (simp_all add: setupInteractionHandler_def Let_def detachExisting_fields)

lemma keptListeners_subset: "set (keptListeners w m) \<subseteq> set (listeners w)"
  using removeListener_subset by (auto simp add: keptListeners_cases split: option.splits)

lemma keptTimers_subset: "set (keptTimers w m) \<subseteq> set (timers w)"
  by (auto simp add: keptTimers_cases set_clearTimeout split: option.splits)

lemma keptListeners_other:
  assumes "listenersOk w" "h \<in> set (keptListeners w m)"
  shows "hMessage h \<noteq> m"
proof
  assume m: "hMessage h = m"
  from assms(2) keptListeners_subset have hl: "h \<in> set (listeners w)" by blast
  with assms(1) obtain t where "activeCollectors w (hMessage h) = Some \<lparr>handler = hid h, timeout = t\<rparr>"
    unfolding listenersOk_def by blast
  with m have "keptListeners w m = removeListener (hid h) (listeners w)"
    by (simp add: keptListeners_cases)
  moreover from assms(1) have "distinct (map hid (listeners w))"
    by (simp add: listenersOk_def)
  ultimately show False
    using assms(2) by (simp add: set_removeListener)
qed

lemma keptTimers_other:
  assumes "timersOk w" "(t, tm) \<in> set (keptTimers w m)"
  shows "tMessage tm \<noteq> m"
proof
  assume m: "tMessage tm = m"
  from assms(2) keptTimers_subset have tl: "(t, tm) \<in> set (timers w)" by blast
  with assms(1) have "activeCollectors w (tMessage tm) = Some \<lparr>handler = tHandler tm, timeout = t\<rparr>"
    unfolding timersOk_def by blast
  with m have "keptTimers w m = clearTimeout t (timers w)"
    by (simp add: keptTimers_cases)
  with assms(2) show False
    by (simp add: set_clearTimeout)
qed

lemma listener_by_hid:
  assumes "distinct (map hid ls)" "h \<in> set ls" "h' \<in> set ls" "hid h = hid h'"
  shows "h = h'"
  using assms by (meson distinct_map inj_onD)

lemma keptListeners_keeps:
  assumes "liveInv w" "h \<in> set (listeners w)" "hMessage h \<noteq> m"
  shows "h \<in> set (keptListeners w m)"
proof (cases "activeCollectors w m")
  case None
  with assms(2) show ?thesis by (simp add: keptListeners_cases)
next
  case (Some existing)
  from assms(1) Some obtain h0 where h0: "h0 \<in> set (listeners w)" "hid h0 = handler existing" "hMessage h0 = m"
    unfolding liveInv_def registryOk_def by blast
  have "hid h \<noteq> handler existing"
  proof
    assume "hid h = handler existing"
    with h0 have "hid h = hid h0" by simp
    moreover from assms(1) have "distinct (map hid (listeners w))"
      by (simp add: liveInv_def listenersOk_def)
    ultimately have "h = h0"
      using assms(2) h0(1) by (blast intro: listener_by_hid)
    with h0(3) assms(3) show False by simp
  qed
  moreover from assms(1) have "distinct (map hid (listeners w))"
    by (simp add: liveInv_def listenersOk_def)
  ultimately show ?thesis
    using assms(2) Some by (simp add: keptListeners_cases set_removeListener)
qed

lemma keptTimers_keeps:
  assumes "liveInv w" "map_of (timers w) t = Some tm" "tMessage tm \<noteq> m"
  shows "map_of (keptTimers w m) t = Some tm"
proof (cases "activeCollectors w m")
  case None
  with assms(2) show ?thesis by (simp add: keptTimers_cases)
next
  case (Some existing)
  from assms(1) Some obtain tm0 where "map_of (timers w) (timeout existing) = Some tm0" "tMessage tm0 = m"
    unfolding liveInv_def registryOk_def by blast
  with assms(2,3) have "t \<noteq> timeout existing"
    by auto
  with assms(2) Some show ?thesis
    by (simp add: keptTimers_cases map_of_clearTimeout)
qed

lemma keptTimers_distinct: "distinct (map fst (timers w)) \<Longrightarrow> distinct (map fst (keptTimers w m))"
  by (simp add: keptTimers_cases distinct_clearTimeout split: option.splits)

lemma keptListeners_distinct: "distinct (map hid (listeners w)) \<Longrightarrow> distinct (map hid (keptListeners w m))"
  by (simp add: keptListeners_cases distinct_removeListener split: option.splits)

lemma setup_timersOk:
  assumes "liveInv w"
  shows "timersOk (setupInteractionHandler w m a n)"
proof -
  from assms have t: "timersOk w" by (simp add: liveInv_def)
  then have d: "distinct (map fst (timers w))"
    and b: "\<And>t tm. (t, tm) \<in> set (timers w) \<Longrightarrow> t < nextTimer w"
    and r: "\<And>t tm. (t, tm) \<in> set (timers w) \<Longrightarrow>
               activeCollectors w (tMessage tm) = Some \<lparr>handler = tHandler tm, timeout = t\<rparr>"
    unfolding timersOk_def by blast+
  have fresh: "nextTimer w \<notin> fst ` set (keptTimers w m)"
    using b keptTimers_subset[of w m] by force
  have d': "distinct (map fst (timers (setupInteractionHandler w m a n)))"
    using keptTimers_distinct[OF d, of m] fresh by (simp add: setup_fields)
  have "t < nextTimer (setupInteractionHandler w m a n)
        \<and> activeCollectors (setupInteractionHandler w m a n) (tMessage tm)
            = Some \<lparr>handler = tHandler tm, timeout = t\<rparr>"
    if "(t, tm) \<in> set (timers (setupInteractionHandler w m a n))" for t tm
  proof (cases "(t, tm) \<in> set (keptTimers w m)")
    case True
    then have "(t, tm) \<in> set (timers w)" using keptTimers_subset by blast
    with b r have "t < nextTimer w"
      "activeCollectors w (tMessage tm) = Some \<lparr>handler = tHandler tm, timeout = t\<rparr>"
      by blast+
    moreover from keptTimers_other[OF t True] have "tMessage tm \<noteq> m" .
    ultimately show ?thesis by (simp add: setup_fields)
  next
    case False
    with that have "t = nextTimer w"
      "tm = \<lparr>due = now w + COLLECTOR_TIMEOUT, tMessage = m, tHandler = nextHandler w\<rparr>"
      by (simp_all add: setup_fields)
    then show ?thesis by (simp add: setup_fields)
  qed
  with d' show ?thesis
    unfolding timersOk_def by blast
qed

lemma setup_listenersOk:
  assumes "liveInv w"
  shows "listenersOk (setupInteractionHandler w m a n)"
proof -
  from assms have l: "listenersOk w" by (simp add: liveInv_def)
  then have d: "distinct (map hid (listeners w))"
    and b: "\<And>h. h \<in> set (listeners w) \<Longrightarrow> hid h < nextHandler w"
    and r: "\<And>h. h \<in> set (listeners w) \<Longrightarrow>
               \<exists>t. activeCollectors w (hMessage h) = Some \<lparr>handler = hid h, timeout = t\<rparr>"
    unfolding listenersOk_def by blast+
  have fresh: "nextHandler w \<notin> hid ` set (keptListeners w m)"
    using b keptListeners_subset[of w m] by force
  have d': "distinct (map hid (listeners (setupInteractionHandler w m a n)))"
    using keptListeners_distinct[OF d, of m] fresh by (simp add: setup_fields)
  have "hid h < nextHandler (setupInteractionHandler w m a n)
        \<and> (\<exists>t. activeCollectors (setupInteractionHandler w m a n) (hMessage h)
            = Some \<lparr>handler = hid h, timeout = t\<rparr>)"
    if "h \<in> set (listeners (setupInteractionHandler w m a n))" for h
  proof (cases "h \<in> set (keptListeners w m)")
    case True
    then have "h \<in> set (listeners w)" using keptListeners_subset by blast
    with b r have "hid h < nextHandler w"
      "\<exists>t. activeCollectors w (hMessage h) = Some \<lparr>handler = hid h, timeout = t\<rparr>"
      by blast+
    moreover from keptListeners_other[OF l True] have "hMessage h \<noteq> m" .
    ultimately show ?thesis by (simp add: setup_fields)
  next
    case False
    with that have "h = \<lparr>hid = nextHandler w, hMessage = m, hAuthor = a, hTotalCards = n\<rparr>"
      by (simp add: setup_fields)
    then show ?thesis by (simp add: setup_fields)
  qed
  with d' show ?thesis
    unfolding listenersOk_def by blast
qed

lemma setup_registryOk:
  assumes "liveInv w"
  shows "registryOk (setupInteractionHandler w m a n)"
  unfolding registryOk_def
proof (intro allI impI)
  fix m' c
  assume c: "activeCollectors (setupInteractionHandler w m a n) m' = Some c"
  from assms have t: "timersOk w" by (simp add: liveInv_def)
  have fresh: "nextTimer w \<notin> fst ` set (keptTimers w m)"
    using t keptTimers_subset[of w m] unfolding timersOk_def by force
  show "(\<exists>h\<in>set (listeners (setupInteractionHandler w m a n)). hid h = handler c \<and> hMessage h = m')
        \<and> (\<exists>tm. map_of (timers (setupInteractionHandler w m a n)) (timeout c) = Some tm
               \<and> tMessage tm = m' \<and> tHandler tm = handler c)"
  proof (cases "m' = m")
    case True
    with c have c': "c = \<lparr>handler = nextHandler w, timeout = nextTimer w\<rparr>"
      by (simp add: setup_fields)
    have "map_of (keptTimers w m) (nextTimer w) = None"
      using fresh by (simp add: map_of_eq_None_iff)
    then show ?thesis
      by (simp add: setup_fields c' True map_add_def)
  next
    case False
    with c have c0: "activeCollectors w m' = Some c"
      by (simp add: setup_fields)
    with assms obtain h tm where h: "h \<in> set (listeners w)" "hid h = handler c" "hMessage h = m'"
      and tm: "map_of (timers w) (timeout c) = Some tm" "tMessage tm = m'" "tHandler tm = handler c"
      unfolding liveInv_def registryOk_def by blast
    from keptListeners_keeps[OF assms h(1)] h(3) False have "h \<in> set (keptListeners w m)"
      by simp
    moreover from keptTimers_keeps[OF assms tm(1)] tm(2) False
    have "map_of (keptTimers w m) (timeout c) = Some tm"
      by simp
    ultimately show ?thesis
      using h(2,3) tm(2,3) by (auto simp add: setup_fields map_add_def)
  qed
qed

lemma setup_liveInv: "liveInv w \<Longrightarrow> liveInv (setupInteractionHandler w m a n)"
  by (simp add: liveInv_def[of "setupInteractionHandler w m a n"] setup_timersOk setup_listenersOk
      setup_registryOk)

subsection \<open>Interactions\<close>

lemma handle_fields:
  "activeCollectors (handle h i w) = activeCollectors w"
  "listeners (handle h i w) = listeners w"
  "timers (handle h i w) = timers w"
  "now (handle h i w) = now w"
  "nextHandler (handle h i w) = nextHandler w"
  "nextTimer (handle h i w) = nextTimer w"
  "clears (handle h i w) m = clears w m"
  by (simp_all add: handle_def Let_def clears_def)

lemma handle_ignored: "hMessage h \<noteq> iMessage i \<Longrightarrow> handle h i w = w"
  by (simp add: handle_def)

lemma fold_handle_fields:
  "activeCollectors (fold (\<lambda>h. handle h i) hs w) = activeCollectors w"
  "listeners (fold (\<lambda>h. handle h i) hs w) = listeners w"
  "timers (fold (\<lambda>h. handle h i) hs w) = timers w"
  "now (fold (\<lambda>h. handle h i) hs w) = now w"
  "nextHandler (fold (\<lambda>h. handle h i) hs w) = nextHandler w"
  "nextTimer (fold (\<lambda>h. handle h i) hs w) = nextTimer w"
  "clears (fold (\<lambda>h. handle h i) hs w) m = clears w m"
  by (induction hs arbitrary: w; simp add: handle_fields)+

lemma emit_fields:
  "activeCollectors (emitInteraction i w) = activeCollectors w"
  "listeners (emitInteraction i w) = listeners w"
  "timers (emitInteraction i w) = timers w"
  "now (emitInteraction i w) = now w"
  "nextHandler (emitInteraction i w) = nextHandler w"
  "nextTimer (emitInteraction i w) = nextTimer w"
  "clears (emitInteraction i w) m = clears w m"
  by (simp_all add: emitInteraction_def fold_handle_fields)

lemma fold_handle_ignored:
  "\<forall>h\<in>set hs. hMessage h \<noteq> iMessage i \<Longrightarrow> fold (\<lambda>h. handle h i) hs w = w"
  by (induction hs arbitrary: w) (simp_all add: handle_ignored)

lemma emit_ignored:
  "\<forall>h\<in>set (listeners w). hMessage h \<noteq> iMessage i \<Longrightarrow> emitInteraction i w = w"
  by (simp add: emitInteraction_def fold_handle_ignored)

lemma emit_liveInv: "liveInv (emitInteraction i w) = liveInv w"
  by (simp add: liveInv_def timersOk_def listenersOk_def registryOk_def emit_fields)

lemma emit_sessionActive: "sessionActive (emitInteraction i w) m h t d = sessionActive w m h t d"
  by (simp add: sessionActive_def emit_fields)

lemma emit_sessionExpired: "sessionExpired (emitInteraction i w) m = sessionExpired w m"
  by (simp add: sessionExpired_def emit_fields)

subsection \<open>Timers\<close>

lemma fireTimer_idle: "map_of (timers w) t = None \<Longrightarrow> fireTimer t w = w"
  by (simp add: fireTimer_def)

lemma fireTimer_fields:
  assumes "map_of (timers w) t = Some tm"
  shows "activeCollectors (fireTimer t w) = (activeCollectors w)(tMessage tm := None)"
    "listeners (fireTimer t w) = removeListener (tHandler tm) (listeners w)"
    "timers (fireTimer t w) = clearTimeout t (timers w)"
    "now (fireTimer t w) = now w"
    "nextHandler (fireTimer t w) = nextHandler w"
    "nextTimer (fireTimer t w) = nextTimer w"
    "effects (fireTimer t w) = effects w @ [ClearControls (tMessage tm)]"
  using assms by (simp_all add: fireTimer_def timeoutCallback_def)

lemma timer_entry:
  assumes "liveInv w" "map_of (timers w) t = Some tm"
  shows "activeCollectors w (tMessage tm) = Some \<lparr>handler = tHandler tm, timeout = t\<rparr>"
proof -
  from assms(2) have "(t, tm) \<in> set (timers w)" by (rule map_of_SomeD)
  with assms(1) show ?thesis
    unfolding liveInv_def timersOk_def by blast
qed

lemma timer_lookup:
  assumes "liveInv w" "(t, tm) \<in> set (timers w)"
  shows "map_of (timers w) t = Some tm"
proof -
  from assms(1) have "distinct (map fst (timers w))"
    by (simp add: liveInv_def timersOk_def)
  with assms(2) show ?thesis by simp
qed

lemma fireTimer_liveInv:
  assumes inv: "liveInv w"
  shows "liveInv (fireTimer t w)"
proof (cases "map_of (timers w) t")
  case None
  with inv show ?thesis by (simp add: fireTimer_idle)
next
  case (Some tm)
  note f = fireTimer_fields[OF Some]
  from timer_entry[OF inv Some]
  have e: "activeCollectors w (tMessage tm) = Some \<lparr>handler = tHandler tm, timeout = t\<rparr>" .
  from inv have t0: "timersOk w" and l0: "listenersOk w" and r0: "registryOk w"
    by (simp_all add: liveInv_def)
  have sl: "set (removeListener (tHandler tm) (listeners w))
      = {l \<in> set (listeners w). hid l \<noteq> tHandler tm}"
    using l0 by (simp add: listenersOk_def set_removeListener)
  have tk: "timersOk (fireTimer t w)"
    unfolding timersOk_def
  proof (intro conjI ballI)
    show "distinct (map fst (timers (fireTimer t w)))"
      using t0 by (simp add: f timersOk_def distinct_clearTimeout)
    fix p assume p: "p \<in> set (timers (fireTimer t w))"
    obtain t' tm' where pp: "p = (t', tm')" by (cases p)
    from p have in0: "(t', tm') \<in> set (timers w)" and ne: "t' \<noteq> t"
      by (simp_all add: f pp set_clearTimeout)
    from t0 in0 have b: "t' < nextTimer w"
      and a: "activeCollectors w (tMessage tm') = Some \<lparr>handler = tHandler tm', timeout = t'\<rparr>"
      unfolding timersOk_def by blast+
    from a e ne have "tMessage tm' \<noteq> tMessage tm" by auto
    with a b show "case p of (u, um) \<Rightarrow>
        u < nextTimer (fireTimer t w)
        \<and> activeCollectors (fireTimer t w) (tMessage um) = Some \<lparr>handler = tHandler um, timeout = u\<rparr>"
      by (simp add: pp f)
  qed
  have lk: "listenersOk (fireTimer t w)"
  proof -
    have d: "distinct (map hid (listeners (fireTimer t w)))"
      using l0 by (simp add: f listenersOk_def distinct_removeListener)
    have "hid h < nextHandler (fireTimer t w)
        \<and> (\<exists>t'. activeCollectors (fireTimer t w) (hMessage h) = Some \<lparr>handler = hid h, timeout = t'\<rparr>)"
      if h: "h \<in> set (listeners (fireTimer t w))" for h
    proof -
      from h have in0: "h \<in> set (listeners w)" and ne: "hid h \<noteq> tHandler tm"
        by (simp_all add: f sl)
      from l0 in0 obtain t' where b: "hid h < nextHandler w"
        and a: "activeCollectors w (hMessage h) = Some \<lparr>handler = hid h, timeout = t'\<rparr>"
        unfolding listenersOk_def by blast
      from a e ne have "hMessage h \<noteq> tMessage tm" by auto
      with a b show ?thesis
        by (simp add: f)
    qed
    with d show ?thesis
      unfolding listenersOk_def by blast
  qed
  have rk: "registryOk (fireTimer t w)"
    unfolding registryOk_def
  proof (intro allI impI)
    fix m c assume c: "activeCollectors (fireTimer t w) m = Some c"
    then have ne: "m \<noteq> tMessage tm" and c0: "activeCollectors w m = Some c"
      by (auto simp add: f split: if_splits)
    from r0 c0 obtain h tm' where h: "h \<in> set (listeners w)" "hid h = handler c" "hMessage h = m"
      and tm': "map_of (timers w) (timeout c) = Some tm'" "tMessage tm' = m" "tHandler tm' = handler c"
      unfolding registryOk_def by blast
    from l0 h(1) obtain t' where "activeCollectors w (hMessage h) = Some \<lparr>handler = hid h, timeout = t'\<rparr>"
      unfolding listenersOk_def by blast
    with h(3) c0 have "hid h \<noteq> tHandler tm \<or> m = tMessage tm"
    proof -
      have "hid h = tHandler tm \<Longrightarrow> m = tMessage tm"
      proof -
        assume eq: "hid h = tHandler tm"
        from r0 e obtain h0 where h0: "h0 \<in> set (listeners w)" "hid h0 = tHandler tm" "hMessage h0 = tMessage tm"
          unfolding registryOk_def by force
        from l0 have "distinct (map hid (listeners w))" by (simp add: listenersOk_def)
        from listener_by_hid[OF this h(1) h0(1)] eq h0(2) have "h = h0" by simp
        with h(3) h0(3) show ?thesis by simp
      qed
      then show ?thesis by blast
    qed
    with ne have hne: "hid h \<noteq> tHandler tm" by simp
    from tm'(1,2) Some ne have tne: "timeout c \<noteq> t" by auto
    from h hne have "\<exists>h\<in>set (listeners (fireTimer t w)). hid h = handler c \<and> hMessage h = m"
      by (auto simp add: f sl)
    moreover from tm' tne
    have "\<exists>tm'. map_of (timers (fireTimer t w)) (timeout c) = Some tm' \<and> tMessage tm' = m
            \<and> tHandler tm' = handler c"
      by (simp add: f map_of_clearTimeout)
    ultimately show "(\<exists>h\<in>set (listeners (fireTimer t w)). hid h = handler c \<and> hMessage h = m)
        \<and> (\<exists>tm'. map_of (timers (fireTimer t w)) (timeout c) = Some tm' \<and> tMessage tm' = m
               \<and> tHandler tm' = handler c)"
      by blast
  qed
  from tk lk rk show ?thesis by (simp add: liveInv_def)
qed

lemma expired_from_registry:
  assumes "liveInv w" "activeCollectors w m = None"
  shows "sessionExpired w m"
proof -
  have "hMessage l \<noteq> m" if "l \<in> set (listeners w)" for l
  proof
    assume "hMessage l = m"
    moreover from assms(1) that obtain t where
      "activeCollectors w (hMessage l) = Some \<lparr>handler = hid l, timeout = t\<rparr>"
      unfolding liveInv_def listenersOk_def by blast
    ultimately show False using assms(2) by simp
  qed
  moreover have "tMessage tm \<noteq> m" if "(t, tm) \<in> set (timers w)" for t tm
  proof
    assume "tMessage tm = m"
    moreover from assms(1) that have
      "activeCollectors w (tMessage tm) = Some \<lparr>handler = tHandler tm, timeout = t\<rparr>"
      unfolding liveInv_def timersOk_def by blast
    ultimately show False using assms(2) by simp
  qed
  ultimately show ?thesis
    using assms(2) unfolding sessionExpired_def by blast
qed

lemma fireTimer_own:
  assumes "liveInv w" "sessionActive w m h t d"
  shows "activeCollectors (fireTimer t w) m = None" "clears (fireTimer t w) m = clears w m + 1"
proof -
  from assms(2) have tm: "map_of (timers w) t = Some \<lparr>due = d, tMessage = m, tHandler = h\<rparr>"
    by (simp add: sessionActive_def)
  show "activeCollectors (fireTimer t w) m = None"
    by (simp add: fireTimer_fields[OF tm])
  show "clears (fireTimer t w) m = clears w m + 1"
    by (simp add: clears_def fireTimer_fields[OF tm])
qed

lemma fireTimer_other:
  assumes inv: "liveInv w" and act: "sessionActive w m h t d" and ne: "t' \<noteq> t"
  shows "sessionActive (fireTimer t' w) m h t d" "clears (fireTimer t' w) m = clears w m"
proof -
  have "sessionActive (fireTimer t' w) m h t d \<and> clears (fireTimer t' w) m = clears w m"
  proof (cases "map_of (timers w) t'")
    case None
    with act show ?thesis by (simp add: fireTimer_idle)
  next
    case (Some tm')
    note f = fireTimer_fields[OF Some]
    from timer_entry[OF inv Some]
    have e: "activeCollectors w (tMessage tm') = Some \<lparr>handler = tHandler tm', timeout = t'\<rparr>" .
    from act have a: "activeCollectors w m = Some \<lparr>handler = h, timeout = t\<rparr>"
      and tm: "map_of (timers w) t = Some \<lparr>due = d, tMessage = m, tHandler = h\<rparr>"
      and l: "\<exists>l\<in>set (listeners w). hid l = h \<and> hMessage l = m"
      by (simp_all add: sessionActive_def)
    from a e ne have mm: "tMessage tm' \<noteq> m" by auto
    from l obtain l0 where l0: "l0 \<in> set (listeners w)" "hid l0 = h" "hMessage l0 = m" by blast
    have hh: "tHandler tm' \<noteq> h"
    proof
      assume eq: "tHandler tm' = h"
      from inv e obtain l1 where l1: "l1 \<in> set (listeners w)" "hid l1 = tHandler tm'"
        "hMessage l1 = tMessage tm'"
        unfolding liveInv_def registryOk_def by force
      from inv have "distinct (map hid (listeners w))" by (simp add: liveInv_def listenersOk_def)
      from listener_by_hid[OF this l0(1) l1(1)] eq l0(2) l1(2) have "l0 = l1" by simp
      with l0(3) l1(3) mm show False by simp
    qed
    have "set (removeListener (tHandler tm') (listeners w))
        = {l \<in> set (listeners w). hid l \<noteq> tHandler tm'}"
      using inv by (simp add: liveInv_def listenersOk_def set_removeListener)
    with l0 hh have "\<exists>l\<in>set (listeners (fireTimer t' w)). hid l = h \<and> hMessage l = m"
      by (auto simp add: f)
    moreover from a mm have "activeCollectors (fireTimer t' w) m = Some \<lparr>handler = h, timeout = t\<rparr>"
      by (simp add: f)
    moreover from tm ne have "map_of (timers (fireTimer t' w)) t = Some \<lparr>due = d, tMessage = m, tHandler = h\<rparr>"
      by (simp add: f map_of_clearTimeout)
    moreover from mm have "clears (fireTimer t' w) m = clears w m"
      by (simp add: clears_def f)
    ultimately show ?thesis
      by (simp add: sessionActive_def)
  qed
  then show "sessionActive (fireTimer t' w) m h t d" "clears (fireTimer t' w) m = clears w m"
    by blast+
qed

lemma fireTimer_expired:
  assumes inv: "liveInv w" and ex: "activeCollectors w m = None"
  shows "activeCollectors (fireTimer t' w) m = None" "clears (fireTimer t' w) m = clears w m"
proof -
  have "activeCollectors (fireTimer t' w) m = None \<and> clears (fireTimer t' w) m = clears w m"
  proof (cases "map_of (timers w) t'")
    case None
    with ex show ?thesis by (simp add: fireTimer_idle)
  next
    case (Some tm')
    from timer_entry[OF inv Some] ex have "tMessage tm' \<noteq> m" by auto
    with ex show ?thesis
      by (simp add: clears_def fireTimer_fields[OF Some])
  qed
  then show "activeCollectors (fireTimer t' w) m = None" "clears (fireTimer t' w) m = clears w m"
    by blast+
qed

lemma fold_fire_liveInv: "liveInv w \<Longrightarrow> liveInv (fold fireTimer ts w)"
  by (induction ts arbitrary: w) (simp_all add: fireTimer_liveInv)

lemma fold_fire_now: "now (fold fireTimer ts w) = now w"
proof (induction ts arbitrary: w)
  case Nil
  then show ?case by simp
next
  case (Cons t ts)
  have "now (fireTimer t w) = now w"
    by (cases "map_of (timers w) t") (simp_all add: fireTimer_idle fireTimer_fields)
  with Cons show ?case by simp
qed

lemma fold_fire_expired:
  assumes "liveInv w" "activeCollectors w m = None"
  shows "activeCollectors (fold fireTimer ts w) m = None \<and> clears (fold fireTimer ts w) m = clears w m"
  using assms
proof (induction ts arbitrary: w)
  case Nil
  then show ?case by simp
next
  case (Cons t ts)
  from fireTimer_expired[OF Cons.prems] fireTimer_liveInv[OF Cons.prems(1)]
  have "liveInv (fireTimer t w)" "activeCollectors (fireTimer t w) m = None"
    "clears (fireTimer t w) m = clears w m"
    by blast+
  with Cons.IH[of "fireTimer t w"] show ?case by simp
qed

lemma fold_fire_other:
  assumes "liveInv w" "sessionActive w m h t d" "t \<notin> set ts"
  shows "sessionActive (fold fireTimer ts w) m h t d \<and> clears (fold fireTimer ts w) m = clears w m"
  using assms
proof (induction ts arbitrary: w)
  case Nil
  then show ?case by simp
next
  case (Cons t' ts)
  from Cons.prems(3) have ne: "t' \<noteq> t" and nin: "t \<notin> set ts" by auto
  from fireTimer_other[OF Cons.prems(1,2) ne] fireTimer_liveInv[OF Cons.prems(1)]
  have "liveInv (fireTimer t' w)" "sessionActive (fireTimer t' w) m h t d"
    "clears (fireTimer t' w) m = clears w m"
    by blast+
  with Cons.IH[of "fireTimer t' w"] nin show ?case by simp
qed

lemma fold_fire_own:
  assumes "liveInv w" "sessionActive w m h t d" "t \<in> set ts"
  shows "activeCollectors (fold fireTimer ts w) m = None
         \<and> clears (fold fireTimer ts w) m = clears w m + 1"
  using assms
proof (induction ts arbitrary: w)
  case Nil
  then show ?case by simp
next
  case (Cons t' ts)
  show ?case
  proof (cases "t' = t")
    case True
    from fireTimer_own[OF Cons.prems(1,2)] fireTimer_liveInv[OF Cons.prems(1)]
    have "liveInv (fireTimer t w)" "activeCollectors (fireTimer t w) m = None"
      "clears (fireTimer t w) m = clears w m + 1"
      by blast+
    with fold_fire_expired[of "fireTimer t w" m ts] True show ?thesis by simp
  next
    case False
    with Cons.prems(3) have "t \<in> set ts" by simp
    moreover from fireTimer_other[OF Cons.prems(1,2) False] fireTimer_liveInv[OF Cons.prems(1)]
    have "liveInv (fireTimer t' w)" "sessionActive (fireTimer t' w) m h t d"
      "clears (fireTimer t' w) m = clears w m"
      by blast+
    ultimately show ?thesis
      using Cons.IH[of "fireTimer t' w"] by simp
  qed
qed

subsection \<open>The clock\<close>

lemma fold_fire_pairs: "fold (\<lambda>(t, tm). fireTimer t) ps w = fold fireTimer (map fst ps) w"
  by (induction ps arbitrary: w) (simp_all add: case_prod_beta)

lemma elapse_alt:
  "elapse dt w
     = (fold fireTimer (map fst (filter (\<lambda>(t, tm). due tm \<le> now w + dt) (timers w))) w)
         \<lparr>now := now w + dt\<rparr>"
  by (simp add: elapse_def Let_def fold_fire_pairs)

lemma now_update_liveInv: "liveInv (w\<lparr>now := x\<rparr>) = liveInv w"
  by (simp add: liveInv_def timersOk_def listenersOk_def registryOk_def)

lemma now_update_sessionActive: "sessionActive (w\<lparr>now := x\<rparr>) m h t d = sessionActive w m h t d"
  by (simp add: sessionActive_def)

lemma now_update_clears: "clears (w\<lparr>now := x\<rparr>) m = clears w m"
  by (simp add: clears_def)

lemma elapse_now: "now (elapse dt w) = now w + dt"
  by (simp add: elapse_alt)

lemma elapse_liveInv: "liveInv w \<Longrightarrow> liveInv (elapse dt w)"
  by (simp add: elapse_alt now_update_liveInv fold_fire_liveInv)

lemma due_timer_iff:
  assumes "liveInv w" "sessionActive w m h t d"
  shows "(t \<in> set (map fst (filter (\<lambda>(t, tm). due tm \<le> x) (timers w)))) = (d \<le> x)"
proof -
  from assms(2) have tm: "map_of (timers w) t = Some \<lparr>due = d, tMessage = m, tHandler = h\<rparr>"
    by (simp add: sessionActive_def)
  then have mem: "(t, \<lparr>due = d, tMessage = m, tHandler = h\<rparr>) \<in> set (timers w)"
    by (rule map_of_SomeD)
  have eq: "tm' = \<lparr>due = d, tMessage = m, tHandler = h\<rparr>" if "(t, tm') \<in> set (timers w)" for tm'
    using timer_lookup[OF assms(1) that] tm by simp
  show ?thesis
  proof
    assume "t \<in> set (map fst (filter (\<lambda>(t, tm). due tm \<le> x) (timers w)))"
    then obtain tm' where m': "(t, tm') \<in> set (timers w)" and d': "due tm' \<le> x"
      by auto
    from eq[OF m'] d' show "d \<le> x" by simp
  next
    assume "d \<le> x"
    with mem have "(t, \<lparr>due = d, tMessage = m, tHandler = h\<rparr>)
        \<in> set (filter (\<lambda>(t, tm). due tm \<le> x) (timers w))"
      by simp
    then show "t \<in> set (map fst (filter (\<lambda>(t, tm). due tm \<le> x) (timers w)))"
      by (metis fst_conv image_eqI set_map)
  qed
qed

lemma elapse_before_due:
  assumes "liveInv w" "sessionActive w m h t d" "now w + dt < d"
  shows "sessionActive (elapse dt w) m h t d" "clears (elapse dt w) m = clears w m"
proof -
  from due_timer_iff[OF assms(1,2), of "now w + dt"] assms(3)
  have "t \<notin> set (map fst (filter (\<lambda>(t, tm). due tm \<le> now w + dt) (timers w)))"
    by simp
  from fold_fire_other[OF assms(1,2) this]
  show "sessionActive (elapse dt w) m h t d" "clears (elapse dt w) m = clears w m"
    by (simp_all add: elapse_alt now_update_sessionActive now_update_clears)
qed

lemma elapse_past_due:
  assumes "liveInv w" "sessionActive w m h t d" "d \<le> now w + dt"
  shows "activeCollectors (elapse dt w) m = None" "clears (elapse dt w) m = clears w m + 1"
proof -
  from due_timer_iff[OF assms(1,2), of "now w + dt"] assms(3)
  have "t \<in> set (map fst (filter (\<lambda>(t, tm). due tm \<le> now w + dt) (timers w)))"
    by simp
  from fold_fire_own[OF assms(1,2) this]
  show "activeCollectors (elapse dt w) m = None" "clears (elapse dt w) m = clears w m + 1"
    by (simp_all add: elapse_alt now_update_clears)
qed

lemma elapse_expired:
  assumes "liveInv w" "activeCollectors w m = None"
  shows "activeCollectors (elapse dt w) m = None" "clears (elapse dt w) m = clears w m"
  using fold_fire_expired[OF assms]
  by (simp_all add: elapse_alt now_update_clears)

subsection \<open>Another message's session\<close>

lemma setup_other_active:
  assumes "liveInv w" "sessionActive w m h t d" "m' \<noteq> m"
  shows "sessionActive (setupInteractionHandler w m' a n) m h t d"
proof -
  from assms(2) have a: "activeCollectors w m = Some \<lparr>handler = h, timeout = t\<rparr>"
    and tm: "map_of (timers w) t = Some \<lparr>due = d, tMessage = m, tHandler = h\<rparr>"
    and l: "\<exists>l\<in>set (listeners w). hid l = h \<and> hMessage l = m"
    by (simp_all add: sessionActive_def)
  from l obtain l0 where l0: "l0 \<in> set (listeners w)" "hid l0 = h" "hMessage l0 = m" by blast
  from keptListeners_keeps[OF assms(1) l0(1), of m'] l0(3) assms(3)
  have "l0 \<in> set (keptListeners w m')" by simp
  moreover from keptTimers_keeps[OF assms(1) tm, of m'] assms(3)
  have "map_of (keptTimers w m') t = Some \<lparr>due = d, tMessage = m, tHandler = h\<rparr>" by simp
  ultimately show ?thesis
    using a l0(2,3) assms(3) by (auto simp add: sessionActive_def setup_fields map_add_def)
qed

lemma setup_clears: "clears (setupInteractionHandler w m' a n) m = clears w m"
  by (simp add: clears_def setup_fields)

lemma setup_new_active:
  assumes "liveInv w"
  shows "sessionActive (setupInteractionHandler w m a n) m (nextHandler w) (nextTimer w)
           (now w + COLLECTOR_TIMEOUT)"
proof -
  from assms have "timersOk w" by (simp add: liveInv_def)
  then have "nextTimer w \<notin> fst ` set (keptTimers w m)"
    using keptTimers_subset[of w m] unfolding timersOk_def by force
  then have "map_of (keptTimers w m) (nextTimer w) = None"
    by (simp add: map_of_eq_None_iff)
  then show ?thesis
    by (simp add: sessionActive_def setup_fields map_add_def)
qed

subsection \<open>Runs\<close>

lemma run_Nil: "run [] w = w"
  by (simp add: run_def)

lemma run_Cons: "run (ev # evs) w = run evs (step ev w)"
  by (simp add: run_def)

lemma step_liveInv: "liveInv w \<Longrightarrow> liveInv (step ev w)"
  by (cases ev) (simp_all add: setup_liveInv emit_liveInv elapse_liveInv)

lemma run_liveInv: "liveInv w \<Longrightarrow> liveInv (run evs w)"
  by (induction evs arbitrary: w) (simp_all add: run_Nil run_Cons step_liveInv)

lemma initial_liveInv: "liveInv initialWorld"
  by (simp add: liveInv_def timersOk_def listenersOk_def registryOk_def initialWorld_def)

lemma reachable_liveInv: "liveInv (run evs initialWorld)"
  by (rule run_liveInv) (rule initial_liveInv)

lemma one_listener_per_message:
  assumes "liveInv w" "l \<in> set (listeners w)" "l' \<in> set (listeners w)" "hMessage l = hMessage l'"
  shows "l = l'"
proof -
  from assms(1) have lo: "listenersOk w" by (simp add: liveInv_def)
  with assms(2,3) obtain t t' where
    "activeCollectors w (hMessage l) = Some \<lparr>handler = hid l, timeout = t\<rparr>"
    "activeCollectors w (hMessage l') = Some \<lparr>handler = hid l', timeout = t'\<rparr>"
    unfolding listenersOk_def by blast
  with assms(4) have "hid l = hid l'" by simp
  moreover from lo have "distinct (map hid (listeners w))" by (simp add: listenersOk_def)
  ultimately show ?thesis
    using assms(2,3) by (blast intro: listener_by_hid)
qed

lemma step_sessionState:
  assumes s: "sessionState w m h t d c" and ev: "\<forall>a n. ev \<noteq> Setup m a n"
  shows "sessionState (step ev w) m h t d c"
proof -
  from s have inv: "liveInv w" by (simp add: sessionState_def)
  show ?thesis
  proof (cases ev)
    case (Setup m' a n)
    with ev have ne: "m' \<noteq> m" by auto
    show ?thesis
    proof (cases "now w < d")
      case True
      with s have "sessionActive w m h t d" "clears w m = c" by (simp_all add: sessionState_def)
      with setup_other_active[OF inv _ ne, of h t d a n] True inv show ?thesis
        by (simp add: Setup sessionState_def setup_liveInv setup_clears setup_fields)
    next
      case False
      with s have "activeCollectors w m = None" "clears w m = c + 1" by (simp_all add: sessionState_def)
      with False inv ne show ?thesis
        by (simp add: Setup sessionState_def setup_liveInv setup_clears setup_fields)
    qed
  next
    case (Interaction i)
    with s show ?thesis
      by (simp add: sessionState_def emit_liveInv emit_sessionActive emit_fields)
  next
    case (Elapse dt)
    show ?thesis
    proof (cases "now w < d")
      case True
      with s have a: "sessionActive w m h t d" and c: "clears w m = c" by (simp_all add: sessionState_def)
      show ?thesis
      proof (cases "now w + dt < d")
        case True
        from elapse_before_due[OF inv a True] c True inv show ?thesis
          by (simp add: Elapse sessionState_def elapse_liveInv elapse_now)
      next
        case False
        then have "d \<le> now w + dt" by simp
        from elapse_past_due[OF inv a this] c False inv show ?thesis
          by (simp add: Elapse sessionState_def elapse_liveInv elapse_now)
      qed
    next
      case False
      with s have "activeCollectors w m = None" "clears w m = c + 1" by (simp_all add: sessionState_def)
      with elapse_expired[OF inv, of m dt] False inv show ?thesis
        by (simp add: Elapse sessionState_def elapse_liveInv elapse_now)
    qed
  qed
qed

lemma run_sessionState:
  assumes "sessionState w m h t d c" "\<forall>ev\<in>set evs. \<forall>a n. ev \<noteq> Setup m a n"
  shows "sessionState (run evs w) m h t d c"
  using assms
proof (induction evs arbitrary: w)
  case Nil
  then show ?case by (simp add: run_Nil)
next
  case (Cons ev evs)
  from Cons.prems(2) have "\<forall>a n. ev \<noteq> Setup m a n" by simp
  from step_sessionState[OF Cons.prems(1) this] Cons.prems(2) Cons.IH[of "step ev w"]
  show ?case by (simp add: run_Cons)
qed

subsection \<open>A replaced handler\<close>

lemma fireTimer_subsets:
  "set (listeners (fireTimer t w)) \<subseteq> set (listeners w)"
  "set (timers (fireTimer t w)) \<subseteq> set (timers w)"
  "nextHandler (fireTimer t w) = nextHandler w"
  "nextTimer (fireTimer t w) = nextTimer w"
  using removeListener_subset[of _ "listeners w"]
  by (cases "map_of (timers w) t";
      auto simp add: fireTimer_idle fireTimer_fields set_clearTimeout)+

lemma fireTimer_retired: "retired w h t \<Longrightarrow> retired (fireTimer t' w) h t"
  using fireTimer_subsets[of t' w] by (auto simp add: retired_def)

lemma fold_fire_retired: "retired w h t \<Longrightarrow> retired (fold fireTimer ts w) h t"
  by (induction ts arbitrary: w) (simp_all add: fireTimer_retired)

lemma step_retired:
  assumes "retired w h t"
  shows "retired (step ev w) h t"
proof (cases ev)
  case (Setup m a n)
  from assms keptListeners_subset[of w m] keptTimers_subset[of w m] show ?thesis
    by (auto simp add: Setup retired_def setup_fields)
next
  case (Interaction i)
  with assms show ?thesis by (simp add: retired_def emit_fields)
next
  case (Elapse dt)
  from fold_fire_retired[OF assms] show ?thesis
    by (simp add: Elapse elapse_alt retired_def)
qed

lemma run_retired: "retired w h t \<Longrightarrow> retired (run evs w) h t"
  by (induction evs arbitrary: w) (simp_all add: run_Nil run_Cons step_retired)

lemma retired_fire_idle: "retired w h t \<Longrightarrow> fireTimer t w = w"
  by (rule fireTimer_idle) (simp add: retired_def map_of_eq_None_iff)

lemma setup_retires_existing:
  assumes "liveInv w" "activeCollectors w m = Some c"
  shows "retired (setupInteractionHandler w m a n) (handler c) (timeout c)"
proof -
  from assms obtain l tm where l: "l \<in> set (listeners w)" "hid l = handler c"
    and tm: "map_of (timers w) (timeout c) = Some tm"
    unfolding liveInv_def registryOk_def by blast
  from assms(1) l have hb: "handler c < nextHandler w"
    unfolding liveInv_def listenersOk_def by force
  from tm have "(timeout c, tm) \<in> set (timers w)" by (rule map_of_SomeD)
  with assms(1) have tb: "timeout c < nextTimer w"
    unfolding liveInv_def timersOk_def by force
  from assms(1) have "distinct (map hid (listeners w))"
    by (simp add: liveInv_def listenersOk_def)
  with assms(2) have "handler c \<notin> hid ` set (keptListeners w m)"
    "timeout c \<notin> fst ` set (keptTimers w m)"
    by (auto simp add: keptListeners_cases keptTimers_cases set_removeListener set_clearTimeout)
  with hb tb show ?thesis
    by (simp add: retired_def setup_fields)
qed

lemma detach_removes_existing:
  assumes "liveInv w" "activeCollectors w m = Some c"
  shows "handler c \<notin> hid ` set (keptListeners w m)" "timeout c \<notin> fst ` set (keptTimers w m)"
proof -
  from assms(1) have "distinct (map hid (listeners w))"
    by (simp add: liveInv_def listenersOk_def)
  with assms(2) show "handler c \<notin> hid ` set (keptListeners w m)"
    "timeout c \<notin> fst ` set (keptTimers w m)"
    by (auto simp add: keptListeners_cases keptTimers_cases set_removeListener set_clearTimeout)
qed

lemma fresh_handler:
  assumes "liveInv w"
  shows "nextHandler w \<notin> hid ` set (keptListeners w m)"
proof -
  from assms have "\<forall>h\<in>set (listeners w). hid h < nextHandler w"
    by (simp add: liveInv_def listenersOk_def)
  with keptListeners_subset[of w m] show ?thesis by fastforce
qed

lemma retired_no_timer:
  assumes "liveInv w" "retired w h t" "(t', tm) \<in> set (timers w)"
  shows "tHandler tm \<noteq> h"
proof
  assume eq: "tHandler tm = h"
  from assms(1,3) have "activeCollectors w (tMessage tm) = Some \<lparr>handler = tHandler tm, timeout = t'\<rparr>"
    unfolding liveInv_def timersOk_def by blast
  with assms(1) have "\<exists>l\<in>set (listeners w). hid l = tHandler tm"
    unfolding liveInv_def registryOk_def by fastforce
  then have "tHandler tm \<in> hid ` set (listeners w)" by force
  with eq assms(2) show False by (simp add: retired_def)
qed

subsection \<open>The life of a session\<close>

lemma fold_fire_subsets:
  "set (listeners (fold fireTimer ts w)) \<subseteq> set (listeners w)"
  "set (timers (fold fireTimer ts w)) \<subseteq> set (timers w)"
  "nextHandler (fold fireTimer ts w) = nextHandler w"
  "nextTimer (fold fireTimer ts w) = nextTimer w"
proof (induction ts arbitrary: w)
  case Nil
  {
    case 1 show ?case by simp
  next
    case 2 show ?case by simp
  next
    case 3 show ?case by simp
  next
    case 4 show ?case by simp
  }
next
  case (Cons t ts)
  {
    case 1
    from Cons.IH(1)[of "fireTimer t w"] fireTimer_subsets(1)[of t w] show ?case by auto
  next
    case 2
    from Cons.IH(2)[of "fireTimer t w"] fireTimer_subsets(2)[of t w] show ?case by auto
  next
    case 3
    from Cons.IH(3)[of "fireTimer t w"] fireTimer_subsets(3)[of t w] show ?case by simp
  next
    case 4
    from Cons.IH(4)[of "fireTimer t w"] fireTimer_subsets(4)[of t w] show ?case by simp
  }
qed

lemma elapse_subsets:
  "set (listeners (elapse dt w)) \<subseteq> set (listeners w)"
  "set (timers (elapse dt w)) \<subseteq> set (timers w)"
  "nextHandler (elapse dt w) = nextHandler w"
  "nextTimer (elapse dt w) = nextTimer w"
  by (simp_all add: elapse_alt fold_fire_subsets)

lemma elapse_past_due_retired:
  assumes inv: "liveInv w" and act: "sessionActive w m h t d" and past: "d \<le> now w + dt"
  shows "retired (elapse dt w) h t"
proof -
  from act have tm: "map_of (timers w) t = Some \<lparr>due = d, tMessage = m, tHandler = h\<rparr>"
    and l: "\<exists>l\<in>set (listeners w). hid l = h \<and> hMessage l = m"
    by (simp_all add: sessionActive_def)
  from l obtain l0 where l0: "l0 \<in> set (listeners w)" "hid l0 = h" "hMessage l0 = m" by blast
  from tm have mem: "(t, \<lparr>due = d, tMessage = m, tHandler = h\<rparr>) \<in> set (timers w)"
    by (rule map_of_SomeD)
  from inv have dl: "distinct (map hid (listeners w))"
    and hb: "\<forall>l\<in>set (listeners w). hid l < nextHandler w"
    and tb: "\<forall>(t, tm)\<in>set (timers w). t < nextTimer w"
    by (auto simp add: liveInv_def listenersOk_def timersOk_def)
  from elapse_past_due(1)[OF inv act past] elapse_liveInv[OF inv, of dt]
  have ex: "sessionExpired (elapse dt w) m"
    by (simp add: expired_from_registry)
  have "h \<notin> hid ` set (listeners (elapse dt w))"
  proof
    assume "h \<in> hid ` set (listeners (elapse dt w))"
    then obtain l where l: "l \<in> set (listeners (elapse dt w))" "hid l = h" by auto
    with elapse_subsets(1)[of dt w] have "l \<in> set (listeners w)" by auto
    from listener_by_hid[OF dl this l0(1)] l(2) l0(2) have "l = l0" by simp
    with l(1) l0(3) ex show False by (auto simp add: sessionExpired_def)
  qed
  moreover have "t \<notin> fst ` set (timers (elapse dt w))"
  proof
    assume "t \<in> fst ` set (timers (elapse dt w))"
    then obtain tm' where t': "(t, tm') \<in> set (timers (elapse dt w))" by auto
    with elapse_subsets(2)[of dt w] have "(t, tm') \<in> set (timers w)" by auto
    from timer_lookup[OF inv this] tm
    have "tm' = \<lparr>due = d, tMessage = m, tHandler = h\<rparr>" by simp
    then have "tMessage tm' = m" by simp
    with t' ex show False by (auto simp add: sessionExpired_def)
  qed
  moreover from hb l0 have "h < nextHandler w" by auto
  moreover from tb mem have "t < nextTimer w" by auto
  ultimately show ?thesis
    by (simp add: retired_def elapse_subsets)
qed

lemma step_sessionLife:
  assumes "sessionLife w m h t d"
  shows "sessionLife (step ev w) m h t d"
proof -
  from assms have inv: "liveInv w" by (simp add: sessionLife_def)
  then have inv': "liveInv (step ev w)" by (rule step_liveInv)
  from assms consider (live) "now w < d" "sessionActive w m h t d" | (over) "retired w h t"
    by (auto simp add: sessionLife_def)
  then show ?thesis
  proof cases
    case over
    with inv' show ?thesis by (simp add: sessionLife_def step_retired)
  next
    case live
    show ?thesis
    proof (cases ev)
      case (Setup m' a n)
      show ?thesis
      proof (cases "m' = m")
        case True
        from live(2) have "activeCollectors w m = Some \<lparr>handler = h, timeout = t\<rparr>"
          by (simp add: sessionActive_def)
        from setup_retires_existing[OF inv this, of a n] inv' True show ?thesis
          by (simp add: Setup sessionLife_def)
      next
        case False
        from setup_other_active[OF inv live(2) False, of a n] live(1) inv' show ?thesis
          by (simp add: Setup sessionLife_def setup_fields)
      qed
    next
      case (Interaction i)
      with live inv' show ?thesis
        by (simp add: sessionLife_def emit_sessionActive emit_fields)
    next
      case (Elapse dt)
      show ?thesis
      proof (cases "now w + dt < d")
        case True
        from elapse_before_due(1)[OF inv live(2) True] True inv' show ?thesis
          by (simp add: Elapse sessionLife_def elapse_now)
      next
        case False
        then have "d \<le> now w + dt" by simp
        from elapse_past_due_retired[OF inv live(2) this] inv' show ?thesis
          by (simp add: Elapse sessionLife_def)
      qed
    qed
  qed
qed

lemma run_sessionLife: "sessionLife w m h t d \<Longrightarrow> sessionLife (run evs w) m h t d"
  by (induction evs arbitrary: w) (simp_all add: run_Nil run_Cons step_sessionLife)

subsection \<open>Evaluation of runs\<close>

lemmas sessionDefs = run_def setupInteractionHandler_def detachExisting_def initialWorld_def
  elapse_def fireTimer_def timeoutCallback_def removeListener_def clearTimeout_def
  emitInteraction_def handle_def calculateNewPage_def nextButton_def COLLECTOR_TIMEOUT_def
  Let_def

subsection \<open>Replacing the session of a message\<close>

text \<open>
  C1. For every message identity at most one live handler exists at a time: when a new
  session is registered for a message that already has an active handler, that
  handler's subscription is removed and its timer is cancelled before the new handler
  is installed, so the old handler receives no further events and its timer, firing
  afterwards, neither expires nor detaches the new handler.

  Let \<open>w\<close> be a state that a run of the program reaches. In \<open>w\<close> no two subscribed
  handlers serve the same message. If message \<open>m\<close> has the entry \<open>c1\<close> in
  \<open>activeCollectors\<close> when \<open>setupInteractionHandler\<close> is called for \<open>m\<close>, then after the
  clean-up of lines 254-258, where the new handler is not yet subscribed, the handler
  of \<open>c1\<close> is not subscribed and its timer is not pending; the call leaves the new
  handler and the new timer as the active session of \<open>m\<close>, due \<open>COLLECTOR_TIMEOUT\<close>
  later; and after every further sequence of events the old handler is not subscribed,
  so that no interaction is delivered to it, its timer is not pending, no pending timer
  closes over it, and the loop, given the handle of the old timer, runs nothing.
\<close>

theorem setupInteractionHandler_replaces:
  assumes reach: "w = run evs initialWorld"
    and replaced: "w1 = setupInteractionHandler w m a n"
    and later: "w2 = run evs' w1"
  shows "(\<forall>l\<in>set (listeners w). \<forall>l'\<in>set (listeners w). hMessage l = hMessage l' \<longrightarrow> l = l')
    \<and> (activeCollectors w m = Some c1 \<longrightarrow>
          handler c1 \<notin> hid ` set (listeners (detachExisting w m))
        \<and> timeout c1 \<notin> fst ` set (timers (detachExisting w m))
        \<and> nextHandler w \<notin> hid ` set (listeners (detachExisting w m))
        \<and> sessionActive w1 m (nextHandler w) (nextTimer w) (now w + COLLECTOR_TIMEOUT)
        \<and> handler c1 \<notin> hid ` set (listeners w2)
        \<and> timeout c1 \<notin> fst ` set (timers w2)
        \<and> (\<forall>(t, tm)\<in>set (timers w2). tHandler tm \<noteq> handler c1)
        \<and> fireTimer (timeout c1) w2 = w2)"
proof -
  from reach have inv: "liveInv w" by (simp add: reachable_liveInv)
  have one: "\<forall>l\<in>set (listeners w). \<forall>l'\<in>set (listeners w). hMessage l = hMessage l' \<longrightarrow> l = l'"
    using one_listener_per_message[OF inv] by blast
  have rest: "handler c1 \<notin> hid ` set (listeners (detachExisting w m))
        \<and> timeout c1 \<notin> fst ` set (timers (detachExisting w m))
        \<and> nextHandler w \<notin> hid ` set (listeners (detachExisting w m))
        \<and> sessionActive w1 m (nextHandler w) (nextTimer w) (now w + COLLECTOR_TIMEOUT)
        \<and> handler c1 \<notin> hid ` set (listeners w2)
        \<and> timeout c1 \<notin> fst ` set (timers w2)
        \<and> (\<forall>(t, tm)\<in>set (timers w2). tHandler tm \<noteq> handler c1)
        \<and> fireTimer (timeout c1) w2 = w2"
    if act: "activeCollectors w m = Some c1"
  proof -
    from setup_retires_existing[OF inv act] replaced
    have "retired w1 (handler c1) (timeout c1)" by simp
    with later have r2: "retired w2 (handler c1) (timeout c1)" by (simp add: run_retired)
    from inv replaced later have inv2: "liveInv w2" by (simp add: setup_liveInv run_liveInv)
    have a: "handler c1 \<notin> hid ` set (listeners (detachExisting w m))"
      and b: "timeout c1 \<notin> fst ` set (timers (detachExisting w m))"
      by (rule detach_removes_existing[OF inv act])+
    have c: "nextHandler w \<notin> hid ` set (listeners (detachExisting w m))"
      by (rule fresh_handler[OF inv])
    have d: "sessionActive w1 m (nextHandler w) (nextTimer w) (now w + COLLECTOR_TIMEOUT)"
      unfolding replaced by (rule setup_new_active[OF inv])
    from r2 have e: "handler c1 \<notin> hid ` set (listeners w2)"
      and f: "timeout c1 \<notin> fst ` set (timers w2)"
      by (simp_all add: retired_def)
    have g: "\<forall>(t, tm)\<in>set (timers w2). tHandler tm \<noteq> handler c1"
      using retired_no_timer[OF inv2 r2] by blast
    have h: "fireTimer (timeout c1) w2 = w2"
      by (rule retired_fire_idle[OF r2])
    from a b c d e f g h show ?thesis by blast
  qed
  from one rest show ?thesis by blast
qed

theorem setupInteractionHandler_replaces_witness:
  "sessionActive
     (setupInteractionHandler (run [Setup ''m1'' ''u1'' 25, Elapse 1000] initialWorld)
        ''m1'' ''u1'' 30) ''m1'' 1 1 301000
   \<and> 0 \<notin> hid ` set (listeners
        (run [Interaction nextButton, Elapse 299000, Interaction nextButton]
           (setupInteractionHandler (run [Setup ''m1'' ''u1'' 25, Elapse 1000] initialWorld)
              ''m1'' ''u1'' 30)))
   \<and> fireTimer 0
        (run [Interaction nextButton, Elapse 299000, Interaction nextButton]
           (setupInteractionHandler (run [Setup ''m1'' ''u1'' 25, Elapse 1000] initialWorld)
              ''m1'' ''u1'' 30))
       = run [Interaction nextButton, Elapse 299000, Interaction nextButton]
           (setupInteractionHandler (run [Setup ''m1'' ''u1'' 25, Elapse 1000] initialWorld)
              ''m1'' ''u1'' 30)"
proof -
  let ?w = "run [Setup ''m1'' ''u1'' 25, Elapse 1000] initialWorld"
  have registered: "activeCollectors ?w ''m1'' = Some \<lparr>handler = 0, timeout = 0\<rparr>"
    by (simp add: sessionDefs)
  have counters: "nextHandler ?w = 1" "nextTimer ?w = 1" "now ?w = 1000"
    by (simp_all add: sessionDefs)
  from setupInteractionHandler_replaces
         [where evs = "[Setup ''m1'' ''u1'' 25, Elapse 1000]" and m = "''m1''" and a = "''u1''"
            and n = 30 and evs' = "[Interaction nextButton, Elapse 299000, Interaction nextButton]"
            and ?c1.0 = "\<lparr>handler = 0, timeout = 0\<rparr>",
          OF refl refl refl]
    registered counters
  show ?thesis by (simp add: COLLECTOR_TIMEOUT_def)
qed

subsection \<open>The time to live of a session\<close>

text \<open>
  C9. The time to live of a session is fixed at registration and is never extended by
  activity: the teardown timer fires \<open>COLLECTOR_TIMEOUT\<close> after the registration,
  however many navigation commands are handled in between; after it has fired and
  detached the handler, every further command for the message is ignored, and the
  controls are asked to be cleared once.

  Let a session of message \<open>m\<close> be registered in a state \<open>w\<close> that a run reaches, and let
  \<open>d\<close> be the time of the registration plus \<open>COLLECTOR_TIMEOUT\<close>. An interaction changes
  neither the pending timers nor the clock. Whatever events follow, once the clock has
  reached \<open>d\<close> the handler of the session is not subscribed and its timer is not
  pending. If none of the events that follow registers the message again, then as long
  as the clock is before \<open>d\<close> the session is active, its timer due at \<open>d\<close>, and no request
  to clear the controls has been added; and once the clock has reached \<open>d\<close> the message
  has no entry, no handler and no timer, exactly one request to clear the controls has
  been added, and the delivery of any interaction of the message changes nothing.
\<close>

theorem session_ttl_fixed:
  assumes reach: "w = run evs initialWorld"
    and registered: "w1 = setupInteractionHandler w m a n"
    and dueTime: "d = now w + COLLECTOR_TIMEOUT"
    and later: "w2 = run evs' w1"
  shows "timers (emitInteraction i w2) = timers w2
    \<and> now (emitInteraction i w2) = now w2
    \<and> (d \<le> now w2 \<longrightarrow>
          nextHandler w \<notin> hid ` set (listeners w2) \<and> nextTimer w \<notin> fst ` set (timers w2))
    \<and> ((\<forall>ev\<in>set evs'. \<forall>a' n'. ev \<noteq> Setup m a' n') \<longrightarrow>
          (now w2 < d \<longrightarrow>
             sessionActive w2 m (nextHandler w) (nextTimer w) d \<and> clears w2 m = clears w m)
        \<and> (d \<le> now w2 \<longrightarrow>
             sessionExpired w2 m \<and> clears w2 m = clears w m + 1
           \<and> (\<forall>j. iMessage j = m \<longrightarrow> emitInteraction j w2 = w2)))"
proof -
  from reach have inv: "liveInv w" by (simp add: reachable_liveInv)
  from inv registered have inv1: "liveInv w1" by (simp add: setup_liveInv)
  have act: "sessionActive w1 m (nextHandler w) (nextTimer w) d"
    unfolding registered dueTime by (rule setup_new_active[OF inv])
  have young: "now w1 < d"
    by (simp add: registered dueTime setup_fields COLLECTOR_TIMEOUT_def)
  from inv1 act young have "sessionLife w1 m (nextHandler w) (nextTimer w) d"
    by (simp add: sessionLife_def)
  then have "sessionLife w2 m (nextHandler w) (nextTimer w) d"
    unfolding later by (rule run_sessionLife)
  then have over: "nextHandler w \<notin> hid ` set (listeners w2)
      \<and> nextTimer w \<notin> fst ` set (timers w2)"
    if "d \<le> now w2"
    using that by (auto simp add: sessionLife_def retired_def)
  have alone: "(now w2 < d \<longrightarrow>
             sessionActive w2 m (nextHandler w) (nextTimer w) d \<and> clears w2 m = clears w m)
        \<and> (d \<le> now w2 \<longrightarrow>
             sessionExpired w2 m \<and> clears w2 m = clears w m + 1
           \<and> (\<forall>j. iMessage j = m \<longrightarrow> emitInteraction j w2 = w2))"
    if same: "\<forall>ev\<in>set evs'. \<forall>a' n'. ev \<noteq> Setup m a' n'"
  proof -
    from inv1 act young have "sessionState w1 m (nextHandler w) (nextTimer w) d (clears w m)"
      by (simp add: sessionState_def registered setup_clears)
    from run_sessionState[OF this same] later
    have st: "sessionState w2 m (nextHandler w) (nextTimer w) d (clears w m)" by simp
    then have inv2: "liveInv w2" by (simp add: sessionState_def)
    have before: "sessionActive w2 m (nextHandler w) (nextTimer w) d \<and> clears w2 m = clears w m"
      if "now w2 < d"
      using st that by (simp add: sessionState_def)
    have after: "sessionExpired w2 m \<and> clears w2 m = clears w m + 1
          \<and> (\<forall>j. iMessage j = m \<longrightarrow> emitInteraction j w2 = w2)"
      if "d \<le> now w2"
    proof -
      from st that have none: "activeCollectors w2 m = None"
        and cl: "clears w2 m = clears w m + 1"
        by (simp_all add: sessionState_def)
      from expired_from_registry[OF inv2 none] have ex: "sessionExpired w2 m" .
      then have "\<forall>h\<in>set (listeners w2). hMessage h \<noteq> m" by (simp add: sessionExpired_def)
      then have "emitInteraction j w2 = w2" if "iMessage j = m" for j
        using that by (simp add: emit_ignored)
      with ex cl show ?thesis by blast
    qed
    from before after show ?thesis by blast
  qed
  from over alone show ?thesis by (simp add: emit_fields)
qed

theorem session_ttl_fixed_witness:
  "sessionActive
     (run [Interaction nextButton, Elapse 299999, Interaction nextButton]
        (setupInteractionHandler initialWorld ''m1'' ''u1'' 25)) ''m1'' 0 0 300000
   \<and> sessionExpired
     (run [Interaction nextButton, Elapse 299999, Interaction nextButton, Elapse 1]
        (setupInteractionHandler initialWorld ''m1'' ''u1'' 25)) ''m1''
   \<and> clears
     (run [Interaction nextButton, Elapse 299999, Interaction nextButton, Elapse 1]
        (setupInteractionHandler initialWorld ''m1'' ''u1'' 25)) ''m1'' = 1
   \<and> emitInteraction nextButton
     (run [Interaction nextButton, Elapse 299999, Interaction nextButton, Elapse 1]
        (setupInteractionHandler initialWorld ''m1'' ''u1'' 25))
     = run [Interaction nextButton, Elapse 299999, Interaction nextButton, Elapse 1]
        (setupInteractionHandler initialWorld ''m1'' ''u1'' 25)"
proof -
  let ?w1 = "setupInteractionHandler initialWorld ''m1'' ''u1'' 25"
  let ?early = "[Interaction nextButton, Elapse 299999, Interaction nextButton]"
  let ?late = "[Interaction nextButton, Elapse 299999, Interaction nextButton, Elapse 1]"
  have start: "nextHandler initialWorld = 0" "nextTimer initialWorld = 0" "now initialWorld = 0"
    "clears initialWorld ''m1'' = 0"
    by (simp_all add: initialWorld_def clears_def)
  have clock: "now (run ?early ?w1) = 299999" "now (run ?late ?w1) = 300000"
    by (simp_all add: sessionDefs)
  have button: "iMessage nextButton = ''m1''"
    by (simp add: nextButton_def)
  from session_ttl_fixed
         [where evs = "[]" and m = "''m1''" and a = "''u1''" and n = 25 and evs' = ?early
            and i = nextButton, OF _ refl refl refl]
    start clock
  have early: "sessionActive (run ?early ?w1) ''m1'' 0 0 300000"
    by (simp add: run_def COLLECTOR_TIMEOUT_def)
  from session_ttl_fixed
         [where evs = "[]" and m = "''m1''" and a = "''u1''" and n = 25 and evs' = ?late
            and i = nextButton, OF _ refl refl refl]
    start clock button
  have late: "sessionExpired (run ?late ?w1) ''m1'' \<and> clears (run ?late ?w1) ''m1'' = 1
      \<and> emitInteraction nextButton (run ?late ?w1) = run ?late ?w1"
    by (simp add: run_def COLLECTOR_TIMEOUT_def)
  from early late show ?thesis by simp
qed

end
